theory Spec2Isabelle
  imports Main "HOL-Library.Char_ord" "HOL-Library.Word"
begin

section \<open>The value tree (hjson.h)\<close>

text \<open>
  A binary64 number: a finite one with its sign bit, significand and binary exponent,
  an infinity with its sign, or a NaN.  Only finiteness matters below.
\<close>

datatype double = Finite bool nat int | Infinity bool | NaN

definition isinf :: "double \<Rightarrow> bool" where
  "isinf d = (case d of Infinity _ \<Rightarrow> True | _ \<Rightarrow> False)"

definition isnan :: "double \<Rightarrow> bool" where
  "isnan d = (case d of NaN \<Rightarrow> True | _ \<Rightarrow> False)"

text \<open>
  \<^verbatim>\<open>Value::Type\<close> with the payload of each variant.  A Map is kept as the list of its
  entries in insertion order, with unique keys.
\<close>

datatype "value" =
    Undefined
  | Null
  | Bool bool
  | Double double
  | Int64 "64 word"
  | String string
  | Vector "value list"
  | Map "(string \<times> value) list"

section \<open>The numeric literal recognizer (hjson\_parsenumber.cpp)\<close>

subsection \<open>Bytes\<close>

definition NUL :: char where
  "NUL = CHR 0x00"

definition is_digit :: "char \<Rightarrow> bool" where
  "is_digit c \<longleftrightarrow> CHR ''0'' \<le> c \<and> c \<le> CHR ''9''"

definition is_white :: "char \<Rightarrow> bool" where
  "is_white c \<longleftrightarrow> NUL < c \<and> c \<le> CHR '' ''"

subsection \<open>The library's \<^verbatim>\<open>std::from_chars\<close>\<close>

text \<open>
  The source is compiled with \<^verbatim>\<open>HAS_CHARCONV\<close> on C++17, where \<^verbatim>\<open>_parseInt\<close> and
  \<^verbatim>\<open>_parseFloat\<close> call \<^verbatim>\<open>std::from_chars\<close>.  That function belongs to the C++
  library, not to the repository; it is modelled from the C++ standard
  ([charconv.from.chars]): the longest prefix matching the pattern is consumed,
  \<^verbatim>\<open>ptr\<close> is the number of bytes consumed, \<^verbatim>\<open>ec\<close> is \<^verbatim>\<open>invalid_argument\<close> when
  nothing matches and \<^verbatim>\<open>result_out_of_range\<close> when the value does not fit, and the
  output is written only when \<^verbatim>\<open>ec\<close> is clear (\<open>written = None\<close> otherwise).
\<close>

datatype errc = errc_none | invalid_argument | result_out_of_range

record 'a from_chars_result =
  ptr :: nat
  ec :: errc
  written :: "'a option"

fun decimal :: "nat \<Rightarrow> string \<Rightarrow> nat" where
  "decimal acc [] = acc"
| "decimal acc (c # cs) = decimal (10 * acc + (of_char c - 48)) cs"

definition has_prefix :: "string \<Rightarrow> string \<Rightarrow> bool" where
  "has_prefix pre s \<longleftrightarrow> take (length pre) s = pre"

text \<open>Integers, base 10: an optional minus sign and a non-empty run of digits.\<close>

definition from_chars_int64 :: "string \<Rightarrow> (64 word) from_chars_result" where
  "from_chars_int64 s =
     (let neg = has_prefix ''-'' s;
          body = (if neg then tl s else s);
          ds = takeWhile is_digit body;
          v = (if neg then - int (decimal 0 ds) else int (decimal 0 ds));
          n = (if neg then 1 else 0) + length ds
      in if ds = [] then \<lparr>ptr = 0, ec = invalid_argument, written = None\<rparr>
         else if v < - (2 ^ 63) \<or> 2 ^ 63 \<le> v
           then \<lparr>ptr = n, ec = result_out_of_range, written = None\<rparr>
         else \<lparr>ptr = n, ec = errc_none, written = Some (word_of_int v)\<rparr>)"

text \<open>
  Floating point, \<^verbatim>\<open>chars_format::general\<close>: an optional minus sign, then
  \<^verbatim>\<open>inf\<close>, \<^verbatim>\<open>infinity\<close> or \<^verbatim>\<open>nan\<close> in any case, or a run of digits with at most
  one decimal point and at least one digit, then an exponent that is consumed only
  when it has a digit.  The rounding of the exact decimal value to binary64 is
  the library's and is a parameter \<open>cvt\<close>: from the sign, the decimal significand
  \<open>m\<close> and the decimal exponent \<open>e\<close> of the magnitude \<open>m * 10 ^ e\<close> it gives the
  double, or \<open>None\<close> when the library reports the value out of range.
  \<open>from_chars_double\<close> matches the pattern; \<open>float_result\<close> forms the result from the
  sign, the text in lower case, whether the numeral has no digit, the length of the
  numeral after the sign, and its significand and exponent.
\<close>

type_synonym rounding = "bool \<Rightarrow> nat \<Rightarrow> int \<Rightarrow> double option"

definition lower :: "char \<Rightarrow> char" where
  "lower c = (if CHR ''A'' \<le> c \<and> c \<le> CHR ''Z'' then char_of (of_char c + (32::nat)) else c)"

definition float_result ::
    "rounding \<Rightarrow> bool \<Rightarrow> string \<Rightarrow> bool \<Rightarrow> nat \<Rightarrow> nat \<Rightarrow> int \<Rightarrow> double from_chars_result" where
  "float_result cvt neg low nodigit len m e =
     (let sgn = (if neg then 1 else 0)
      in if has_prefix ''infinity'' low
           then \<lparr>ptr = sgn + 8, ec = errc_none, written = Some (Infinity neg)\<rparr>
         else if has_prefix ''inf'' low
           then \<lparr>ptr = sgn + 3, ec = errc_none, written = Some (Infinity neg)\<rparr>
         else if has_prefix ''nan'' low
           then \<lparr>ptr = sgn + 3, ec = errc_none, written = Some NaN\<rparr>
         else if nodigit
           then \<lparr>ptr = 0, ec = invalid_argument, written = None\<rparr>
         else (case cvt neg m e of
                 None \<Rightarrow> \<lparr>ptr = sgn + len, ec = result_out_of_range, written = None\<rparr>
               | Some d \<Rightarrow> \<lparr>ptr = sgn + len, ec = errc_none, written = Some d\<rparr>))"

definition from_chars_double :: "rounding \<Rightarrow> string \<Rightarrow> double from_chars_result" where
  "from_chars_double cvt s =
     (let neg = has_prefix ''-'' s;
          body = (if neg then tl s else s);
          ip = takeWhile is_digit body;
          r1 = drop (length ip) body;
          dot = has_prefix ''.'' r1;
          fp = (if dot then takeWhile is_digit (tl r1) else []);
          mlen = length ip + (if dot then 1 + length fp else 0);
          r2 = drop mlen body;
          emark = (has_prefix ''e'' r2 \<or> has_prefix ''E'' r2);
          r3 = tl r2;
          eneg = has_prefix ''-'' r3;
          esgn = (eneg \<or> has_prefix ''+'' r3);
          ed = takeWhile is_digit (if esgn then tl r3 else r3);
          hasexp = (emark \<and> ed \<noteq> []);
          elen = (if hasexp then 1 + (if esgn then 1 else 0) + length ed else 0);
          ex = (if hasexp then (if eneg then - int (decimal 0 ed) else int (decimal 0 ed)) else 0)
      in float_result cvt neg (map lower body) (ip = [] \<and> fp = []) (mlen + elen)
           (decimal 0 (ip @ fp)) (ex - int (length fp)))"

subsection \<open>The strict parses\<close>

text \<open>
  \<^verbatim>\<open>_parseInt\<close> and \<^verbatim>\<open>_parseFloat\<close> return the verdict together with what was stored
  through \<^verbatim>\<open>pNumber\<close>; \<open>None\<close> stands for a variable the library left as it was,
  which the caller declared without an initial value.  \<^verbatim>\<open>_parseFloat\<close> classifies the
  stored double after the two tests on the result, so with nothing stored it reads an
  uninitialised variable: \<open>Inl Uninitialised_read\<close>.
\<close>

datatype fault = Uninitialised_read

definition parseInt :: "string \<Rightarrow> bool \<times> (64 word) option" where
  "parseInt s =
     (let res = from_chars_int64 s
      in (ptr res = length s \<and> ec res \<noteq> result_out_of_range, written res))"

definition parseFloat :: "rounding \<Rightarrow> string \<Rightarrow> fault + bool \<times> double option" where
  "parseFloat cvt s =
     (let res = from_chars_double cvt s
      in if ptr res = length s \<and> ec res \<noteq> result_out_of_range
         then (case written res of
                 None \<Rightarrow> Inl Uninitialised_read
               | Some d \<Rightarrow> Inr (\<not> isinf d \<and> \<not> isnan d, Some d))
         else Inr (False, written res))"

subsection \<open>The cursor\<close>

text \<open>
  \<^verbatim>\<open>struct Parser\<close>.  \<open>data\<close> is the pointer: the memory it addresses, indexed from
  the pointer, so that a read at or beyond \<open>dataSize\<close> yields the byte that lies there.
  \<open>at\<close> is an \<^verbatim>\<open>int\<close> in the source and never negative; it is a natural number here,
  which is exact for spans shorter than \<open>2 ^ 31\<close> bytes.
\<close>

record Parser =
  data :: "nat \<Rightarrow> char"
  dataSize :: nat
  at :: nat
  ch :: char

definition next' :: "Parser \<Rightarrow> bool \<times> Parser" where
  "next' p =
     (if at p < dataSize p then (True, p\<lparr>ch := data p (at p), at := at p + 1\<rparr>)
      else if at p = dataSize p then (False, p\<lparr>at := at p + 1, ch := NUL\<rparr>)
      else (False, p))"

subsection \<open>The loops of \<^verbatim>\<open>tryParseNumber\<close>\<close>

text \<open>
  Lines 93 to 102: the integer digit run, with the leading-zero counter and its flag.
  The counter is an \<^verbatim>\<open>int\<close> in the source and an unbounded integer here, which is
  exact for spans shorter than \<open>2 ^ 31\<close> bytes.  A loop of the source that only stops
  on the current byte is a partial function: on a cursor beyond the end that holds a
  digit, \<^verbatim>\<open>_next\<close> changes nothing.
\<close>

partial_function (option) int_digits :: "Parser \<Rightarrow> int \<Rightarrow> bool \<Rightarrow> (Parser \<times> int \<times> bool) option" where [code]:
  "int_digits p leadingZeros testLeading =
     (if is_digit (ch p) then
        (if testLeading then
           (if ch p = CHR ''0'' then int_digits (snd (next' p)) (leadingZeros + 1) testLeading
            else int_digits (snd (next' p)) leadingZeros False)
         else int_digits (snd (next' p)) leadingZeros testLeading)
      else Some (p, leadingZeros, testLeading))"

text \<open>Lines 109 and 110: the digits after the decimal point.\<close>

partial_function (option) frac_digits :: "Parser \<Rightarrow> Parser option" where [code]:
  "frac_digits p =
     (case next' p of (ok, p') \<Rightarrow>
        if ok \<and> is_digit (ch p') then frac_digits p' else Some p')"

text \<open>Lines 117 to 119: the digits of the exponent.\<close>

partial_function (option) exp_digits :: "Parser \<Rightarrow> Parser option" where [code]:
  "exp_digits p = (if is_digit (ch p) then exp_digits (snd (next' p)) else Some p)"

text \<open>Lines 125 to 127: the white space after the numeral.\<close>

partial_function (option) skip_white :: "Parser \<Rightarrow> Parser option" where [code]:
  "skip_white p = (if is_white (ch p) then skip_white (snd (next' p)) else Some p)"

subsection \<open>\<^verbatim>\<open>tryParseNumber\<close>\<close>

text \<open>
  Lines 77 to 127: the scan.  It yields the cursor after the white space, the
  leading-zero counter after its adjustment, and \<^verbatim>\<open>end\<close>.
\<close>

definition scan :: "(nat \<Rightarrow> char) \<Rightarrow> nat \<Rightarrow> (Parser \<times> int \<times> nat) option" where
  "scan text textSize =
     (let p = \<lparr>data = text, dataSize = textSize, at = 0, ch = CHR '' ''\<rparr>;
          p = snd (next' p);
          p = (if ch p = CHR ''-'' then snd (next' p) else p)
      in case int_digits p 0 True of
           None \<Rightarrow> None
         | Some (p, leadingZeros, testLeading) \<Rightarrow>
             (let leadingZeros = (if testLeading then leadingZeros - 1 else leadingZeros)
              in case (if ch p = CHR ''.'' then frac_digits p else Some p) of
                   None \<Rightarrow> None
                 | Some p \<Rightarrow>
                     (case (if ch p = CHR ''e'' \<or> ch p = CHR ''E''
                            then (let p = snd (next' p);
                                      p = (if ch p = CHR ''-'' \<or> ch p = CHR ''+''
                                           then snd (next' p) else p)
                                  in exp_digits p)
                            else Some p) of
                        None \<Rightarrow> None
                      | Some p \<Rightarrow>
                          (let end = at p
                           in case skip_white p of
                                None \<Rightarrow> None
                              | Some p \<Rightarrow> Some (p, leadingZeros, end)))))"

text \<open>
  Lines 129 to 136: in stop-at-next mode a punctuator or the start of a comment
  clears the current byte.  The byte after a slash is read through the pointer
  with no test of \<open>at\<close> against \<open>dataSize\<close>.
\<close>

definition stop_at_next :: "Parser \<Rightarrow> Parser" where
  "stop_at_next p =
     (if ch p = CHR '','' \<or> ch p = CHR ''}'' \<or> ch p = CHR '']'' \<or> ch p = CHR ''#'' \<or>
         (ch p = CHR ''/'' \<and> (data p (at p) = CHR ''/'' \<or> data p (at p) = CHR ''*''))
      then p\<lparr>ch := NUL\<rparr> else p)"

text \<open>
  The bytes \<^verbatim>\<open>[pCh, pCh + nCh)\<close> handed to the strict parses.
\<close>

definition bytes :: "(nat \<Rightarrow> char) \<Rightarrow> nat \<Rightarrow> string" where
  "bytes m n = map m [0..<n]"

text \<open>
  Lines 143 to 155 on the numeral text: the integer parse first, the double parse
  when it fails.  The outcome is the returned flag with the content of
  \<^verbatim>\<open>*pValue\<close> after the call, or the read of a variable that was never written.
\<close>

datatype outcome = Returned bool "value" | Fault fault

definition strict_parse :: "rounding \<Rightarrow> value \<Rightarrow> string \<Rightarrow> outcome" where
  "strict_parse cvt pValue s =
     (case parseInt s of
        (True, Some i) \<Rightarrow> Returned True (Int64 i)
      | (True, None) \<Rightarrow> Fault Uninitialised_read
      | (False, _) \<Rightarrow>
          (case parseFloat cvt s of
             Inl f \<Rightarrow> Fault f
           | Inr (True, Some d) \<Rightarrow> Returned True (Double d)
           | Inr (True, None) \<Rightarrow> Fault Uninitialised_read
           | Inr (False, _) \<Rightarrow> Returned False pValue))"

text \<open>Lines 138 to 155.\<close>

definition finish :: "rounding \<Rightarrow> value \<Rightarrow> Parser \<Rightarrow> int \<Rightarrow> nat \<Rightarrow> outcome" where
  "finish cvt pValue p leadingZeros end =
     (if NUL < ch p \<or> leadingZeros \<noteq> 0 then Returned False pValue
      else strict_parse cvt pValue (bytes (data p) (end - 1)))"

text \<open>
  The whole function.  \<open>text\<close> is the pointer (the memory from it on) and
  \<open>textSize\<close> the length of the span; \<open>None\<close> would be a call that never returns.
\<close>

definition tryParseNumber ::
    "rounding \<Rightarrow> value \<Rightarrow> (nat \<Rightarrow> char) \<Rightarrow> nat \<Rightarrow> bool \<Rightarrow> outcome option" where
  "tryParseNumber cvt pValue text textSize stopAtNext =
     (case scan text textSize of
        None \<Rightarrow> None
      | Some (p, leadingZeros, end) \<Rightarrow>
          Some (finish cvt pValue (if stopAtNext then stop_at_next p else p) leadingZeros end))"

text \<open>
  Lines 159 to 162.  The local \<^verbatim>\<open>Value number\<close> starts as Undefined; the result is
  the flag of the call, and \<open>None\<close> when the call gives no flag.
\<close>

definition startsWithNumber :: "rounding \<Rightarrow> (nat \<Rightarrow> char) \<Rightarrow> nat \<Rightarrow> bool option" where
  "startsWithNumber cvt text textSize =
     (case tryParseNumber cvt Undefined text textSize True of
        None \<Rightarrow> None
      | Some (Returned ok _) \<Rightarrow> Some ok
      | Some (Fault _) \<Rightarrow> None)"

text \<open>
  A span given by its bytes, followed in memory by \<open>beyond\<close>.
\<close>

definition span :: "string \<Rightarrow> (nat \<Rightarrow> char) \<Rightarrow> nat \<Rightarrow> char" where
  "span s beyond i = (if i < length s then s ! i else beyond (i - length s))"

text \<open>Memory that holds zero bytes.\<close>

definition zeros :: "nat \<Rightarrow> char" where
  "zeros i = NUL"


subsection \<open>Notions for stating the properties\<close>

text \<open>
  The byte under the cursor at position \<open>i\<close> of a span of \<open>n\<close> bytes, the
  cursor the scan has there, and the bytes of the span from \<open>i\<close> on.
\<close>

definition cur :: "(nat \<Rightarrow> char) \<Rightarrow> nat \<Rightarrow> nat \<Rightarrow> char" where
  "cur m n i = (if i < n then m i else NUL)"

definition cursor :: "(nat \<Rightarrow> char) \<Rightarrow> nat \<Rightarrow> nat \<Rightarrow> Parser" where
  "cursor m n i = \<lparr>data = m, dataSize = n, at = Suc i, ch = cur m n i\<rparr>"

definition rest :: "(nat \<Rightarrow> char) \<Rightarrow> nat \<Rightarrow> nat \<Rightarrow> string" where
  "rest m n i = map m [i..<n]"

text \<open>The counter and the flag of lines 94 to 100 over a run of digits.\<close>

fun count_zeros :: "string \<Rightarrow> int \<Rightarrow> bool \<Rightarrow> int \<times> bool" where
  "count_zeros [] leadingZeros testLeading = (leadingZeros, testLeading)"
| "count_zeros (c # cs) leadingZeros testLeading =
     (if testLeading then
        (if c = CHR ''0'' then count_zeros cs (leadingZeros + 1) testLeading
         else count_zeros cs leadingZeros False)
      else count_zeros cs leadingZeros testLeading)"

text \<open>
  The integer digit run of a span: the digits after the optional minus sign.  The
  leading-zero counter of a run: its length less one when the run is all zeros (it
  never left the all-zeros state), the number of its leading zeros otherwise.
\<close>

definition digit_run :: "(nat \<Rightarrow> char) \<Rightarrow> nat \<Rightarrow> string" where
  "digit_run m n = takeWhile is_digit (rest m n (if 0 < n \<and> m 0 = CHR ''-'' then 1 else 0))"

definition counter :: "string \<Rightarrow> int" where
  "counter run =
     (if \<forall>c\<in>set run. c = CHR ''0'' then int (length run) - 1
      else int (length (takeWhile (\<lambda>c. c = CHR ''0'') run)))"

text \<open>The integer that a text of an optional minus sign and digits denotes.\<close>

definition int_value :: "string \<Rightarrow> int" where
  "int_value s = (if has_prefix ''-'' s then - int (decimal 0 (tl s)) else int (decimal 0 s))"

text \<open>
  The punctuators and comment starts of lines 131 and 132, with the byte after the
  slash inside the span.
\<close>

definition terminator :: "Parser \<Rightarrow> bool" where
  "terminator p \<longleftrightarrow>
     ch p = CHR '','' \<or> ch p = CHR ''}'' \<or> ch p = CHR '']'' \<or> ch p = CHR ''#'' \<or>
     (ch p = CHR ''/'' \<and> at p < dataSize p \<and>
      (data p (at p) = CHR ''/'' \<or> data p (at p) = CHR ''*''))"

text \<open>
  The positions of the scan.  \<open>run_end P m n i\<close> is the first position from \<open>i\<close> on
  whose byte fails \<open>P\<close>, the end of the span at the latest.  From them: where the
  integer digits start and end, where the fraction ends, where the exponent digits
  start, where the numeral ends (\<^verbatim>\<open>end\<close> is one more) and where the white space ends.
  A byte is inert when no step of the scan consumes it.
\<close>

definition run_end :: "(char \<Rightarrow> bool) \<Rightarrow> (nat \<Rightarrow> char) \<Rightarrow> nat \<Rightarrow> nat \<Rightarrow> nat" where
  "run_end P m n i = i + length (takeWhile P (rest m n i))"

definition start :: "(nat \<Rightarrow> char) \<Rightarrow> nat \<Rightarrow> nat" where
  "start m n = (if cur m n 0 = CHR ''-'' then 1 else 0)"

definition int_end :: "(nat \<Rightarrow> char) \<Rightarrow> nat \<Rightarrow> nat" where
  "int_end m n = run_end is_digit m n (start m n)"

definition frac_end :: "(nat \<Rightarrow> char) \<Rightarrow> nat \<Rightarrow> nat" where
  "frac_end m n =
     (if cur m n (int_end m n) = CHR ''.'' then run_end is_digit m n (Suc (int_end m n))
      else int_end m n)"

definition exp_start :: "(nat \<Rightarrow> char) \<Rightarrow> nat \<Rightarrow> nat" where
  "exp_start m n =
     (if cur m n (Suc (frac_end m n)) = CHR ''-'' \<or> cur m n (Suc (frac_end m n)) = CHR ''+''
      then Suc (Suc (frac_end m n)) else Suc (frac_end m n))"

definition scan_end :: "(nat \<Rightarrow> char) \<Rightarrow> nat \<Rightarrow> nat" where
  "scan_end m n =
     (if cur m n (frac_end m n) = CHR ''e'' \<or> cur m n (frac_end m n) = CHR ''E''
      then run_end is_digit m n (exp_start m n) else frac_end m n)"

definition white_end :: "(nat \<Rightarrow> char) \<Rightarrow> nat \<Rightarrow> nat" where
  "white_end m n = run_end is_white m n (scan_end m n)"

definition inert :: "char \<Rightarrow> bool" where
  "inert c \<longleftrightarrow>
     \<not> is_digit c \<and> \<not> is_white c \<and> c \<noteq> CHR ''.'' \<and> c \<noteq> CHR ''e'' \<and> c \<noteq> CHR ''E'' \<and>
     c \<noteq> CHR ''-'' \<and> c \<noteq> CHR ''+''"

subsection \<open>The number grammar of the spec\<close>

text \<open>
  Section 6 of the spec gives the grammar
  \<^verbatim>\<open>number := '-'? digits ('.' digits)? ( [eE] [+-]? digits )?\<close>.
  \<open>digits\<close> is a non-empty run of digits.  A text is read along the grammar from the
  left: \<open>body\<close> is the text after the optional minus sign, \<open>int_part\<close> the run of
  digits at its front, \<open>point\<close> whether a decimal point follows, \<open>frac_part\<close> the run of
  digits after the point, \<open>exp_mark\<close> whether an exponent marker follows, \<open>exp_sign\<close>
  the optional sign after the marker and \<open>exp_part\<close> the run of digits after it;
  \<open>after_int\<close>, \<open>after_frac\<close> and \<open>after_exp\<close> are what is left of the text after
  each part.  A run of digits of the grammar is followed by a point, a marker or the
  end, never by a digit, so reading the longest run loses no text of the grammar.
\<close>

definition digits :: "string \<Rightarrow> bool" where
  "digits s \<longleftrightarrow> s \<noteq> [] \<and> list_all is_digit s"

definition body :: "string \<Rightarrow> string" where
  "body s = (if has_prefix ''-'' s then tl s else s)"

definition int_part :: "string \<Rightarrow> string" where
  "int_part s = takeWhile is_digit (body s)"

definition after_int :: "string \<Rightarrow> string" where
  "after_int s = dropWhile is_digit (body s)"

definition point :: "string \<Rightarrow> bool" where
  "point s \<longleftrightarrow> has_prefix ''.'' (after_int s)"

definition frac_part :: "string \<Rightarrow> string" where
  "frac_part s = (if point s then takeWhile is_digit (tl (after_int s)) else [])"

definition after_frac :: "string \<Rightarrow> string" where
  "after_frac s = (if point s then dropWhile is_digit (tl (after_int s)) else after_int s)"

definition exp_mark :: "string \<Rightarrow> bool" where
  "exp_mark s \<longleftrightarrow> has_prefix ''e'' (after_frac s) \<or> has_prefix ''E'' (after_frac s)"

definition exp_sign :: "string \<Rightarrow> string" where
  "exp_sign s =
     (if has_prefix ''-'' (tl (after_frac s)) \<or> has_prefix ''+'' (tl (after_frac s))
      then take 1 (tl (after_frac s)) else [])"

definition exp_part :: "string \<Rightarrow> string" where
  "exp_part s =
     (if exp_mark s then takeWhile is_digit (drop (length (exp_sign s)) (tl (after_frac s))) else [])"

definition after_exp :: "string \<Rightarrow> string" where
  "after_exp s =
     (if exp_mark s then dropWhile is_digit (drop (length (exp_sign s)) (tl (after_frac s)))
      else after_frac s)"

text \<open>
  \<open>spec_number\<close> is the grammar as the spec words it: the integer digits, the digits
  after a decimal point and the digits after an exponent marker are non-empty runs, and
  nothing is left of the text.  \<open>number_opt_frac\<close> is the same grammar with the digits
  after the decimal point optional,
  \<^verbatim>\<open>'-'? digits ('.' digit*)? ( [eE] [+-]? digits )?\<close>.
  \<open>integer_text\<close> is an optional minus sign and a non-empty run of digits.
\<close>

definition spec_number :: "string \<Rightarrow> bool" where
  "spec_number s \<longleftrightarrow>
     int_part s \<noteq> [] \<and> (point s \<longrightarrow> frac_part s \<noteq> []) \<and>
     (exp_mark s \<longrightarrow> exp_part s \<noteq> []) \<and> after_exp s = []"

definition number_opt_frac :: "string \<Rightarrow> bool" where
  "number_opt_frac s \<longleftrightarrow>
     int_part s \<noteq> [] \<and> (exp_mark s \<longrightarrow> exp_part s \<noteq> []) \<and> after_exp s = []"

definition integer_text :: "string \<Rightarrow> bool" where
  "integer_text s \<longleftrightarrow> int_part s \<noteq> [] \<and> after_int s = []"

text \<open>
  The signed 64-bit range, and the value of a text read along the grammar: the
  magnitude is \<open>significand * 10 ^ exponent\<close>, with the digits of the integer part and
  of the fraction as the significand.
\<close>

definition in_int64 :: "int \<Rightarrow> bool" where
  "in_int64 v \<longleftrightarrow> - (2 ^ 63) \<le> v \<and> v < 2 ^ 63"

definition significand :: "string \<Rightarrow> nat" where
  "significand s = decimal 0 (int_part s @ frac_part s)"

definition exponent :: "string \<Rightarrow> int" where
  "exponent s =
     (if exp_part s = [] then 0
      else if exp_sign s = ''-'' then - int (decimal 0 (exp_part s))
      else int (decimal 0 (exp_part s))) - int (length (frac_part s))"

subsection \<open>A rounding for the examples\<close>

text \<open>
  Round to nearest, ties to even, onto the 53-bit significands of binary64 with
  exponents from \<open>-1074\<close> to \<open>971\<close>; out of range when the rounded magnitude exceeds
  the largest finite double or a non-zero magnitude rounds to zero.  The magnitude
  \<open>m * 10 ^ e\<close> is the fraction \<open>num / den\<close>, \<open>scaled\<close> divides it by \<open>2 ^ k\<close>, and
  \<open>nearest\<close> rounds a fraction to an integer.
\<close>

fun bitlen :: "nat \<Rightarrow> nat" where
  "bitlen n = (if n = 0 then 0 else Suc (bitlen (n div 2)))"

definition scaled :: "nat \<Rightarrow> nat \<Rightarrow> int \<Rightarrow> nat \<times> nat" where
  "scaled num den k = (if 0 \<le> k then (num, den * 2 ^ nat k) else (num * 2 ^ nat (- k), den))"

definition nearest :: "nat \<times> nat \<Rightarrow> nat" where
  "nearest f =
     (let q = fst f div snd f; r = fst f mod snd f
      in if snd f < 2 * r \<or> (2 * r = snd f \<and> odd q) then q + 1 else q)"

definition binary64 :: rounding where
  "binary64 neg m e =
     (let num = (if 0 \<le> e then m * 10 ^ nat e else m);
          den = (if 0 \<le> e then 1 else 10 ^ nat (- e));
          k0 = int (bitlen num) - int (bitlen den) - 53;
          k1 = (if 2 ^ 53 \<le> fst (scaled num den k0) div snd (scaled num den k0)
                then k0 + 1 else k0);
          k = max k1 (- 1074);
          sig = nearest (scaled num den k)
      in if m = 0 then Some (Finite neg 0 0)
         else if sig = 0 then None
         else if sig = 2 ^ 53
           then (if 971 < k + 1 then None else Some (Finite neg (2 ^ 52) (k + 1)))
         else if 971 < k then None
         else Some (Finite neg sig k))"

section \<open>Merge and keyed access (declared in hjson.h)\<close>

text \<open>The exception classes of hjson.h.\<close>

datatype error = type_mismatch | index_out_of_bounds | syntax_error | file_error

text \<open>
  \<^verbatim>\<open>operator[](const std::string&) const\<close>: the value under a key, Undefined when the
  key is absent or the value is no Map.
\<close>

definition lookup :: "value \<Rightarrow> string \<Rightarrow> value" where
  "lookup v k = (case v of Map m \<Rightarrow> (case map_of m k of Some x \<Rightarrow> x | None \<Rightarrow> Undefined)
                 | _ \<Rightarrow> Undefined)"

definition keys :: "(string \<times> value) list \<Rightarrow> string set" where
  "keys m = fst ` set m"

text \<open>
  Modelled from the spec: \<^verbatim>\<open>Value::clone\<close>, whose body is not among the sources.  The
  spec calls it a deep, fully independent copy; a value of the datatype has no
  sharing, so the copy is the value itself.
\<close>

definition clone :: "value \<Rightarrow> value" where
  "clone v = v"

text \<open>
  Modelled from the spec: \<^verbatim>\<open>Merge\<close>, declared in hjson.h with its contract in a
  comment and defined in a file that is not among the sources.  Section 4.5 of the spec:
  with an Undefined \<open>ext\<close> the result is a clone of \<open>base\<close>; with two Maps it is a new
  Map holding every key of \<open>base\<close> absent from \<open>ext\<close>, cloned from \<open>base\<close>, every key
  of \<open>ext\<close> with a defined value, taken from \<open>ext\<close> (merged with the value of \<open>base\<close>
  under that key when both are Maps), and every key of \<open>ext\<close> with an Undefined value,
  taken from \<open>base\<close>; otherwise it is a clone of \<open>ext\<close>.  The entries of \<open>base\<close> come
  first, in their order, then those that only \<open>ext\<close> has.
\<close>

fun Merge :: "value \<Rightarrow> value \<Rightarrow> value"
  and merge_entries :: "(string \<times> value) list \<Rightarrow> (string \<times> value) list \<Rightarrow> (string \<times> value) list"
where
  "Merge base Undefined = clone base"
| "Merge (Map bm) (Map em) =
     Map (merge_entries bm em @
          filter (\<lambda>(k, e). k \<notin> keys bm \<and> e \<noteq> Undefined) (map (\<lambda>(k, e). (k, clone e)) em))"
| "Merge base ext = clone ext"
| "merge_entries [] em = []"
| "merge_entries ((k, b) # bm) em =
     (k, case map_of em k of None \<Rightarrow> clone b | Some e \<Rightarrow> Merge b e) # merge_entries bm em"

text \<open>
  Modelled from the spec: \<^verbatim>\<open>Value::at\<close>, declared in hjson.h and defined in a file
  that is not among the sources.  The comment on the declaration and section 4.1 of the
  spec: it returns the value under the key and throws \<^verbatim>\<open>index_out_of_bounds\<close> when
  the value is no Map or has no such key.  The result comes with the value as it is
  after the call.
\<close>

definition Value_at :: "value \<Rightarrow> string \<Rightarrow> (error + value) \<times> value" where
  "Value_at v key =
     (case v of
        Map m \<Rightarrow> (case map_of m key of
                    Some x \<Rightarrow> (Inr x, v)
                  | None \<Rightarrow> (Inl index_out_of_bounds, v))
      | _ \<Rightarrow> (Inl index_out_of_bounds, v))"

section \<open>The scan, step by step\<close>

lemma rest_Cons: "i < n \<Longrightarrow> rest m n i = m i # rest m n (Suc i)"
  by (simp add: rest_def upt_conv_Cons)

lemma rest_Nil: "n \<le> i \<Longrightarrow> rest m n i = []"
  by (simp add: rest_def)

lemma NUL_not_digit: "\<not> is_digit NUL"
  by (simp add: is_digit_def NUL_def)

lemma NUL_not_white: "\<not> is_white NUL"
  by (simp add: is_white_def)

lemma next_first: "snd (next' \<lparr>data = m, dataSize = n, at = 0, ch = c\<rparr>) = cursor m n 0"
  by (simp add: next'_def cursor_def cur_def)

lemma next_cursor: "i < n \<Longrightarrow> next' (cursor m n i) = (Suc i < n, cursor m n (Suc i))"
  by (auto simp add: next'_def cursor_def cur_def)

lemma ch_cursor: "ch (cursor m n i) = cur m n i"
  by (simp add: cursor_def)

lemma at_cursor: "at (cursor m n i) = Suc i"
  by (simp add: cursor_def)

lemma data_cursor: "data (cursor m n i) = m"
  by (simp add: cursor_def)

lemma exp_digits_cursor:
  "i \<le> n \<Longrightarrow> \<exists>j. i \<le> j \<and> j \<le> n \<and> exp_digits (cursor m n i) = Some (cursor m n j)"
proof (induction "n - i" arbitrary: i)
  case 0
  then have "i = n" by simp
  then show ?case
    by (subst exp_digits.simps) (auto simp add: ch_cursor cur_def NUL_not_digit)
next
  case (Suc k)
  then have lt: "i < n" by simp
  show ?case
  proof (cases "is_digit (cur m n i)")
    case False
    then show ?thesis using Suc.prems
      by (subst exp_digits.simps) (auto simp add: ch_cursor)
  next
    case True
    from Suc.hyps(2) lt have "k = n - Suc i" by simp
    from Suc.hyps(1) [OF this] lt obtain j where
      "Suc i \<le> j" "j \<le> n" "exp_digits (cursor m n (Suc i)) = Some (cursor m n j)" by auto
    with True lt show ?thesis
      by (subst exp_digits.simps) (auto simp add: ch_cursor next_cursor intro!: exI [of _ j])
  qed
qed

lemma skip_white_cursor:
  "i \<le> n \<Longrightarrow> \<exists>j. i \<le> j \<and> j \<le> n \<and> skip_white (cursor m n i) = Some (cursor m n j)"
proof (induction "n - i" arbitrary: i)
  case 0
  then have "i = n" by simp
  then show ?case
    by (subst skip_white.simps) (auto simp add: ch_cursor cur_def NUL_not_white)
next
  case (Suc k)
  then have lt: "i < n" by simp
  show ?case
  proof (cases "is_white (cur m n i)")
    case False
    then show ?thesis using Suc.prems
      by (subst skip_white.simps) (auto simp add: ch_cursor)
  next
    case True
    from Suc.hyps(2) lt have "k = n - Suc i" by simp
    from Suc.hyps(1) [OF this] lt obtain j where
      "Suc i \<le> j" "j \<le> n" "skip_white (cursor m n (Suc i)) = Some (cursor m n j)" by auto
    with True lt show ?thesis
      by (subst skip_white.simps) (auto simp add: ch_cursor next_cursor intro!: exI [of _ j])
  qed
qed

lemma frac_digits_cursor:
  "i < n \<Longrightarrow> \<exists>j. i < j \<and> j \<le> n \<and> frac_digits (cursor m n i) = Some (cursor m n j)"
proof (induction "n - i" arbitrary: i)
  case 0
  then show ?case by simp
next
  case (Suc k)
  show ?case
  proof (cases "Suc i < n \<and> is_digit (cur m n (Suc i))")
    case False
    with Suc.prems show ?thesis
      by (subst frac_digits.simps) (auto simp add: ch_cursor next_cursor intro!: exI [of _ "Suc i"])
  next
    case True
    from Suc.hyps(2) True have "k = n - Suc i" by simp
    from Suc.hyps(1) [OF this] True obtain j where
      "Suc i < j" "j \<le> n" "frac_digits (cursor m n (Suc i)) = Some (cursor m n j)" by auto
    with True Suc.prems show ?thesis
      by (subst frac_digits.simps) (auto simp add: ch_cursor next_cursor intro!: exI [of _ j])
  qed
qed

lemma int_digits_cursor:
  "i \<le> n \<Longrightarrow>
   int_digits (cursor m n i) lz t =
     Some (cursor m n (i + length (takeWhile is_digit (rest m n i))),
           count_zeros (takeWhile is_digit (rest m n i)) lz t)"
proof (induction "n - i" arbitrary: i lz t)
  case 0
  then have "i = n" by simp
  then show ?case
    by (subst int_digits.simps) (simp add: ch_cursor cur_def NUL_not_digit rest_Nil)
next
  case (Suc k)
  then have lt: "i < n" by simp
  then have c: "cur m n i = m i" by (simp add: cur_def)
  show ?case
  proof (cases "is_digit (m i)")
    case False
    then show ?thesis using lt c
      by (subst int_digits.simps) (simp add: ch_cursor rest_Cons)
  next
    case True
    from Suc.hyps(2) lt have k: "k = n - Suc i" by simp
    from lt have le: "Suc i \<le> n" by simp
    note IH = Suc.hyps(1) [OF k le]
    from True lt c show ?thesis
      by (subst int_digits.simps) (simp add: ch_cursor next_cursor rest_Cons IH)
  qed
qed

lemma count_zeros_False: "count_zeros ds lz False = (lz, False)"
  by (induction ds arbitrary: lz) simp_all

lemma count_zeros_True:
  "count_zeros ds lz True =
     (if \<forall>c\<in>set ds. c = CHR ''0'' then (lz + int (length ds), True)
      else (lz + int (length (takeWhile (\<lambda>c. c = CHR ''0'') ds)), False))"
  by (induction ds arbitrary: lz) (simp_all add: count_zeros_False)

lemma cur_minus: "cur m n i = CHR ''-'' \<longleftrightarrow> i < n \<and> m i = CHR ''-''"
  by (simp add: cur_def NUL_def)

lemma cur_dot: "cur m n i = CHR ''.'' \<Longrightarrow> i < n"
  by (cases "i < n") (simp_all add: cur_def NUL_def)

lemma cur_e: "cur m n i = CHR ''e'' \<or> cur m n i = CHR ''E'' \<Longrightarrow> i < n"
  by (cases "i < n") (simp_all add: cur_def NUL_def)

lemma cur_sign: "cur m n i = CHR ''-'' \<or> cur m n i = CHR ''+'' \<Longrightarrow> i < n"
  by (cases "i < n") (simp_all add: cur_def NUL_def)

lemma length_takeWhile_rest: "i \<le> n \<Longrightarrow> i + length (takeWhile P (rest m n i)) \<le> n"
proof -
  assume "i \<le> n"
  have "length (takeWhile P (rest m n i)) \<le> length (rest m n i)"
    by (rule length_takeWhile_le)
  also have "\<dots> = n - i" by (simp add: rest_def)
  finally show ?thesis using \<open>i \<le> n\<close> by simp
qed

lemma scan_cursor:
  "\<exists>j e. scan m n = Some (cursor m n j, counter (digit_run m n), e) \<and>
          j \<le> n \<and> 1 \<le> e \<and> e \<le> Suc j \<and> (digit_run m n \<noteq> [] \<longrightarrow> 2 \<le> e)"
proof -
  define s :: nat where "s = (if 0 < n \<and> m 0 = CHR ''-'' then 1 else 0)"
  define run where "run = takeWhile is_digit (rest m n s)"
  define i1 where "i1 = s + length run"
  have s: "s \<le> n" by (simp add: s_def)
  have run: "digit_run m n = run" by (simp add: digit_run_def run_def s_def)
  have c0: "(if ch (cursor m n 0) = CHR ''-'' then snd (next' (cursor m n 0)) else cursor m n 0)
              = cursor m n s"
    by (simp add: ch_cursor cur_minus s_def next_cursor)
  have i1: "i1 \<le> n" unfolding i1_def run_def using s by (rule length_takeWhile_rest)
  have 1: "int_digits (cursor m n s) 0 True = Some (cursor m n i1, count_zeros run 0 True)"
    using s by (simp add: int_digits_cursor i1_def run_def)
  have lz: "(case count_zeros run 0 True of (l, t) \<Rightarrow> if t then l - 1 else l) = counter run"
    by (simp add: count_zeros_True counter_def)
  obtain i2 where 2: "(if ch (cursor m n i1) = CHR ''.'' then frac_digits (cursor m n i1)
                       else Some (cursor m n i1)) = Some (cursor m n i2)"
      and i2: "i1 \<le> i2" "i2 \<le> n"
  proof (cases "cur m n i1 = CHR ''.''")
    case True
    then have "i1 < n" by (rule cur_dot)
    from frac_digits_cursor [OF this, of m] True that show ?thesis
      by (auto simp add: ch_cursor)
  next
    case False
    with i1 that show ?thesis by (simp add: ch_cursor)
  qed
  obtain i3 where 3: "(if ch (cursor m n i2) = CHR ''e'' \<or> ch (cursor m n i2) = CHR ''E''
                       then exp_digits
                              (if ch (snd (next' (cursor m n i2))) = CHR ''-'' \<or>
                                  ch (snd (next' (cursor m n i2))) = CHR ''+''
                               then snd (next' (snd (next' (cursor m n i2))))
                               else snd (next' (cursor m n i2)))
                       else Some (cursor m n i2)) = Some (cursor m n i3)"
      and i3: "i2 \<le> i3" "i3 \<le> n"
  proof (cases "cur m n i2 = CHR ''e'' \<or> cur m n i2 = CHR ''E''")
    case False
    with i2 that show ?thesis by (simp add: ch_cursor)
  next
    case True
    then have lt: "i2 < n" by (rule cur_e)
    show ?thesis
    proof (cases "cur m n (Suc i2) = CHR ''-'' \<or> cur m n (Suc i2) = CHR ''+''")
      case False
      from lt have "Suc i2 \<le> n" by simp
      from exp_digits_cursor [OF this, of m] obtain j where
        "Suc i2 \<le> j" "j \<le> n" "exp_digits (cursor m n (Suc i2)) = Some (cursor m n j)" by auto
      with True False lt that [of j] show ?thesis
        by (simp add: ch_cursor next_cursor)
    next
      case sgn: True
      then have "Suc i2 < n" by (rule cur_sign)
      then have "Suc (Suc i2) \<le> n" by simp
      from exp_digits_cursor [OF this, of m] obtain j where
        "Suc (Suc i2) \<le> j" "j \<le> n" "exp_digits (cursor m n (Suc (Suc i2))) = Some (cursor m n j)"
        by auto
      with True sgn lt \<open>Suc i2 < n\<close> that [of j] show ?thesis
        by (simp add: ch_cursor next_cursor)
    qed
  qed
  from skip_white_cursor [OF i3(2), of m] obtain i4 where
    4: "skip_white (cursor m n i3) = Some (cursor m n i4)" and i4: "i3 \<le> i4" "i4 \<le> n" by auto
  have "scan m n = Some (cursor m n i4, counter run, Suc i3)"
    unfolding scan_def Let_def next_first c0 1
    by (simp add: lz [symmetric] 2 3 4 at_cursor split: prod.splits)
  moreover have "run \<noteq> [] \<longrightarrow> 2 \<le> Suc i3"
  proof
    assume "run \<noteq> []"
    then have "1 \<le> length run" by (cases run) simp_all
    with i2(1) i3(1) show "2 \<le> Suc i3" unfolding i1_def by linarith
  qed
  ultimately show ?thesis using i4 i3 run by auto
qed

lemma NUL_less: "NUL < c \<longleftrightarrow> c \<noteq> NUL"
proof -
  have "of_char NUL = (0::nat)" by (simp add: NUL_def)
  moreover have "c = NUL \<longleftrightarrow> of_char c = (of_char NUL :: nat)"
    by (metis of_char_eq_iff)
  ultimately show ?thesis unfolding less_char_def by auto
qed

lemma counter_Nil: "counter [] \<noteq> 0"
  by (simp add: counter_def)

lemma counter_zero:
  "counter run = 0 \<longleftrightarrow> run = ''0'' \<or> (run \<noteq> [] \<and> hd run \<noteq> CHR ''0'')"
proof (cases run)
  case Nil
  then show ?thesis by (simp add: counter_def)
next
  case (Cons c cs)
  show ?thesis
  proof (cases "c = CHR ''0''")
    case False
    with Cons show ?thesis by (auto simp add: counter_def)
  next
    case True
    with Cons show ?thesis by (cases cs) (auto simp add: counter_def)
  qed
qed

lemma length_bytes: "length (bytes m k) = k"
  by (simp add: bytes_def)

lemma parseInt_written:
  assumes "s \<noteq> []" and "fst (parseInt s)"
  shows "\<exists>i. parseInt s = (True, Some i)"
proof -
  define r where "r = from_chars_int64 s"
  have "written r = None \<longrightarrow> ec r = result_out_of_range \<or> ptr r = 0"
    unfolding r_def from_chars_int64_def Let_def by simp
  with assms show ?thesis
    by (cases "written r") (auto simp add: parseInt_def Let_def r_def [symmetric])
qed

lemma float_result_written:
  "written (float_result cvt neg low nodigit len m e) = None \<Longrightarrow>
   ec (float_result cvt neg low nodigit len m e) = result_out_of_range \<or>
   ptr (float_result cvt neg low nodigit len m e) = 0"
  by (simp add: float_result_def Let_def split: if_splits option.splits)

lemma from_chars_double_written:
  "written (from_chars_double cvt s) = None \<Longrightarrow>
   ec (from_chars_double cvt s) = result_out_of_range \<or> ptr (from_chars_double cvt s) = 0"
  unfolding from_chars_double_def Let_def by (rule float_result_written)

lemma parseFloat_no_fault:
  assumes "s \<noteq> []"
  shows "parseFloat cvt s \<noteq> Inl f"
proof -
  define r where "r = from_chars_double cvt s"
  have "written r = None \<Longrightarrow> ec r = result_out_of_range \<or> ptr r = 0"
    unfolding r_def by (rule from_chars_double_written)
  with assms show ?thesis
    by (cases "written r") (auto simp add: parseFloat_def Let_def r_def [symmetric])
qed

lemma parseFloat_True:
  assumes "parseFloat cvt s = Inr (True, x)"
  shows "\<exists>d. x = Some d \<and> \<not> isinf d \<and> \<not> isnan d"
proof (cases "written (from_chars_double cvt s)")
  case None
  with assms show ?thesis
    by (simp add: parseFloat_def Let_def split: if_splits)
next
  case (Some d)
  with assms have "x = Some d \<and> \<not> isinf d \<and> \<not> isnan d"
    by (simp add: parseFloat_def Let_def split: if_splits)
  then show ?thesis by blast
qed

lemma sint_int64: "- (2 ^ 63) \<le> v \<Longrightarrow> v < 2 ^ 63 \<Longrightarrow> sint (word_of_int v :: 64 word) = v"
  by (simp add: sint_sbintrunc' signed_take_bit_int_eq_self)

lemma try_scan:
  "scan m n = Some (p, lz, e) \<Longrightarrow>
   tryParseNumber cvt v m n stop = Some (finish cvt v (if stop then stop_at_next p else p) lz e)"
  by (simp add: tryParseNumber_def)

lemma data_stop_at_next: "data (stop_at_next p) = data p"
  by (simp add: stop_at_next_def)

lemma strict_parse_int:
  "parseInt s = (True, Some i) \<Longrightarrow> strict_parse cvt v s = Returned True (Int64 i)"
  by (simp add: strict_parse_def)

lemma strict_parse_double:
  "\<not> fst (parseInt s) \<Longrightarrow> parseFloat cvt s = Inr (True, Some d) \<Longrightarrow>
   strict_parse cvt v s = Returned True (Double d)"
  by (cases "parseInt s") (simp add: strict_parse_def)

lemma strict_parse_fail:
  "\<not> fst (parseInt s) \<Longrightarrow> parseFloat cvt s = Inr (False, x) \<Longrightarrow>
   strict_parse cvt v s = Returned False v"
  by (cases "parseInt s") (simp add: strict_parse_def)

lemma strict_parse_cases:
  assumes "s \<noteq> []"
  shows "(\<exists>i. parseInt s = (True, Some i) \<and> strict_parse cvt v s = Returned True (Int64 i)) \<or>
         (\<not> fst (parseInt s) \<and>
            (\<exists>d. parseFloat cvt s = Inr (True, Some d) \<and> \<not> isinf d \<and> \<not> isnan d \<and>
                 strict_parse cvt v s = Returned True (Double d))) \<or>
         (\<not> fst (parseInt s) \<and> (\<exists>x. parseFloat cvt s = Inr (False, x)) \<and>
            strict_parse cvt v s = Returned False v)"
proof (cases "fst (parseInt s)")
  case True
  from parseInt_written [OF assms True] obtain i where "parseInt s = (True, Some i)" ..
  then show ?thesis by (simp add: strict_parse_int)
next
  case nint: False
  show ?thesis
  proof (cases "parseFloat cvt s")
    case (Inl f)
    with parseFloat_no_fault [OF assms] show ?thesis by blast
  next
    case (Inr r)
    then obtain b x where r: "parseFloat cvt s = Inr (b, x)" by (cases r) auto
    show ?thesis
    proof (cases b)
      case True
      with r have "parseFloat cvt s = Inr (True, x)" by simp
      from parseFloat_True [OF this] obtain d where "x = Some d" "\<not> isinf d" "\<not> isnan d"
        by blast
      with nint r True show ?thesis by (simp add: strict_parse_double)
    next
      case False
      with nint r show ?thesis by (auto simp add: strict_parse_fail)
    qed
  qed
qed

lemma scan_numeral_text:
  assumes "scan m n = Some (p, lz, e)" and "lz = 0"
  shows "bytes (data (if stop then stop_at_next p else p)) (e - 1) = bytes m (e - 1)"
    and "bytes m (e - 1) \<noteq> []" and "e - 1 \<le> n"
proof -
  from scan_cursor [of m n] assms(1) obtain j where
    p: "p = cursor m n j" and lz: "lz = counter (digit_run m n)"
    and e: "digit_run m n \<noteq> [] \<longrightarrow> 2 \<le> e" and j: "j \<le> n" "e \<le> Suc j" by auto
  show "bytes (data (if stop then stop_at_next p else p)) (e - 1) = bytes m (e - 1)"
    by (simp add: p data_stop_at_next data_cursor)
  from lz assms(2) counter_Nil have "digit_run m n \<noteq> []" by auto
  with e have "2 \<le> e" by simp
  then have "0 < length (bytes m (e - 1))" unfolding length_bytes by simp
  then show "bytes m (e - 1) \<noteq> []" by simp
  from j show "e - 1 \<le> n" by simp
qed

lemma finish_reject:
  "NUL < ch p \<or> lz \<noteq> 0 \<Longrightarrow> finish cvt v p lz e = Returned False v"
  by (simp add: finish_def)

lemma finish_accept:
  "ch p = NUL \<Longrightarrow> lz = 0 \<Longrightarrow> finish cvt v p lz e = strict_parse cvt v (bytes (data p) (e - 1))"
  by (simp add: finish_def NUL_less)

lemma no_fault:
  "\<exists>ok v'. tryParseNumber cvt v m n stop = Some (Returned ok v')"
proof -
  from scan_cursor [of m n] obtain p lz e where sc: "scan m n = Some (p, lz, e)" by blast
  define p' where "p' = (if stop then stop_at_next p else p)"
  have t: "tryParseNumber cvt v m n stop = Some (finish cvt v p' lz e)"
    unfolding p'_def using sc by (rule try_scan)
  show ?thesis
  proof (cases "NUL < ch p' \<or> lz \<noteq> 0")
    case True
    then show ?thesis unfolding t by (simp only: finish_reject) blast
  next
    case False
    then have acc: "ch p' = NUL" "lz = 0" by (simp_all add: NUL_less)
    from scan_numeral_text(1) [OF sc acc(2), where stop = stop]
    have s: "bytes (data p') (e - 1) = bytes m (e - 1)" by (simp add: p'_def)
    from sc acc(2) have ne: "bytes m (e - 1) \<noteq> []" by (rule scan_numeral_text(2))
    from strict_parse_cases [OF ne, of cvt v] show ?thesis
      unfolding t finish_accept [OF acc] s by auto
  qed
qed

section \<open>Examples\<close>

lemma bitlen_numeral:
  "bitlen 0 = 0"
  "bitlen (Suc 0) = Suc 0"
  "bitlen 1 = Suc 0"
  "bitlen (numeral k) = Suc (bitlen (numeral k div 2))"
  by simp_all

lemma binary64_staged:
  assumes "num = (if 0 \<le> e then m * 10 ^ nat e else m)"
    and "den = (if 0 \<le> e then 1 else 10 ^ nat (- e))"
    and "k0 = int (bitlen num) - int (bitlen den) - 53"
    and "k1 = (if 2 ^ 53 \<le> fst (scaled num den k0) div snd (scaled num den k0)
               then k0 + 1 else k0)"
    and "k = max k1 (- 1074)"
    and "sig = nearest (scaled num den k)"
  shows "binary64 neg m e =
     (if m = 0 then Some (Finite neg 0 0)
      else if sig = 0 then None
      else if sig = 2 ^ 53
        then (if 971 < k + 1 then None else Some (Finite neg (2 ^ 52) (k + 1)))
      else if 971 < k then None
      else Some (Finite neg sig k))"
  unfolding binary64_def Let_def assms ..

lemma binary64_half: "binary64 False 5 (- 1) = Some (Finite False 4503599627370496 (- 53))"
proof -
  have "binary64 False 5 (- 1) =
     (if (5::nat) = 0 then Some (Finite False 0 0)
      else if (4503599627370496::nat) = 0 then None
      else if (4503599627370496::nat) = 2 ^ 53
        then (if 971 < (- 53::int) + 1 then None else Some (Finite False (2 ^ 52) (- 53 + 1)))
      else if 971 < (- 53::int) then None
      else Some (Finite False 4503599627370496 (- 53)))"
  proof (rule binary64_staged [where num = 5 and den = 10 and ?k0.0 = "- 54" and ?k1.0 = "- 53"])
    show "(5::nat) = (if 0 \<le> (- 1::int) then 5 * 10 ^ nat (- 1) else 5)" by simp
    show "(10::nat) = (if 0 \<le> (- 1::int) then 1 else 10 ^ nat (- (- 1)))" by simp
    show "(- 54::int) = int (bitlen 5) - int (bitlen 10) - 53"
      by (simp add: bitlen_numeral del: bitlen.simps)
    show "(- 53::int) = (if 2 ^ 53 \<le> fst (scaled 5 10 (- 54)) div snd (scaled 5 10 (- 54))
                          then - 54 + 1 else - 54)" by (simp add: scaled_def)
    show "(- 53::int) = max (- 53) (- 1074)" by simp
    show "(4503599627370496::nat) = nearest (scaled 5 10 (- 53))"
      by (simp add: scaled_def nearest_def)
  qed
  then show ?thesis by simp
qed

lemma bytes_span: "bytes (span s b) (length s) = s"
  by (auto simp add: bytes_def span_def intro!: nth_equalityI)

lemmas scan_eval =
  scan_def Let_def next'_def int_digits.simps frac_digits.simps exp_digits.simps
  skip_white.simps span_def is_digit_def is_white_def NUL_def cursor_def cur_def

lemma stop_at_next_NUL: "ch p = NUL \<Longrightarrow> stop_at_next p = p"
  by (simp add: stop_at_next_def NUL_def)

lemma try_whole:
  assumes "scan (span s b) (length s) =
             Some (cursor (span s b) (length s) (length s), 0, Suc (length s))"
  shows "tryParseNumber cvt v (span s b) (length s) stop = Some (strict_parse cvt v s)"
proof -
  have c: "ch (cursor (span s b) (length s) (length s)) = NUL"
    by (simp add: cursor_def cur_def)
  show ?thesis
    unfolding try_scan [OF assms] stop_at_next_NUL [OF c]
    by (simp add: finish_accept [OF c] data_cursor bytes_span)
qed

lemma parseFloat_numeral:
  assumes "from_chars_double cvt s = float_result cvt neg low False len m e"
    and "\<not> has_prefix ''inf'' low" and "\<not> has_prefix ''nan'' low"
    and "cvt neg m e = Some d"
    and "(if neg then 1 else 0) + len = length s"
  shows "parseFloat cvt s = Inr (\<not> isinf d \<and> \<not> isnan d, Some d)"
proof -
  from assms(2) have "\<not> has_prefix ''infinity'' low"
    by (auto simp add: has_prefix_def dest: arg_cong [where f = "take 3"])
  with assms show ?thesis
    by (simp add: parseFloat_def float_result_def Let_def)
qed

lemma scan_half: "scan (span ''0.5'' b) (length ''0.5'') =
    Some (cursor (span ''0.5'' b) (length ''0.5'') (length ''0.5''), 0, Suc (length ''0.5''))"
  by (simp add: scan_eval)

lemma parseInt_half: "fst (parseInt ''0.5'') = False"
  by code_simp

lemma decimal_half: "decimal 0 ''05'' = 5"
  by code_simp

lemma from_chars_double_half:
  "from_chars_double cvt ''0.5'' = float_result cvt False ''0.5'' False 3 5 (- 1)"
proof -
  have "from_chars_double cvt ''0.5'' = float_result cvt False ''0.5'' False 3 (decimal 0 ''05'') (- 1)"
    by (simp add: from_chars_double_def Let_def has_prefix_def is_digit_def lower_def
        eval_nat_numeral del: decimal.simps)
  then show ?thesis by (simp only: decimal_half)
qed

lemma try_half:
  assumes "cvt False 5 (- 1) = Some d" and "\<not> isinf d" and "\<not> isnan d"
  shows "tryParseNumber cvt v (span ''0.5'' b) (length ''0.5'') stop = Some (Returned True (Double d))"
proof -
  have "parseFloat cvt ''0.5'' = Inr (\<not> isinf d \<and> \<not> isnan d, Some d)"
  proof (rule parseFloat_numeral [OF from_chars_double_half])
    show "cvt False 5 (- 1) = Some d" by (rule assms(1))
  qed (simp_all add: has_prefix_def)
  with assms have "strict_parse cvt v ''0.5'' = Returned True (Double d)"
    by (simp add: strict_parse_double parseInt_half)
  with try_whole [OF scan_half [of b], of cvt v stop] show ?thesis by simp
qed

lemma try_zero_False: "tryParseNumber cvt v (span ''0'' b) (length ''0'') False = Some (Returned True (Int64 0))"
  by code_simp

lemma try_zero_True: "tryParseNumber cvt v (span ''0'' b) (length ''0'') True = Some (Returned True (Int64 0))"
  by code_simp

lemma try_00_True: "tryParseNumber cvt v (span ''00'' b) (length ''00'') True = Some (Returned False v)"
  by code_simp

lemma parseFloat_partial:
  assumes "from_chars_double cvt s = float_result cvt neg low False len m e"
    and "\<not> has_prefix ''inf'' low" and "\<not> has_prefix ''nan'' low"
    and "(if neg then 1 else 0) + len \<noteq> length s"
  shows "\<exists>x. parseFloat cvt s = Inr (False, x)"
proof -
  from assms(2) have "\<not> has_prefix ''infinity'' low"
    by (auto simp add: has_prefix_def dest: arg_cong [where f = "take 3"])
  with assms show ?thesis
    by (cases "cvt neg m e") (simp_all add: parseFloat_def float_result_def Let_def)
qed

lemma scan_1e: "scan (span ''1e'' b) (length ''1e'') =
    Some (cursor (span ''1e'' b) (length ''1e'') (length ''1e''), 0, Suc (length ''1e''))"
  by (simp add: scan_eval)

lemma parseInt_1e: "fst (parseInt ''1e'') = False"
  by code_simp

lemma from_chars_double_1e:
  "from_chars_double cvt ''1e'' = float_result cvt False ''1e'' False 1 1 0"
  by (simp add: from_chars_double_def Let_def has_prefix_def is_digit_def lower_def)

lemma parseFloat_1e: "\<exists>x. parseFloat cvt ''1e'' = Inr (False, x)"
  by (rule parseFloat_partial [OF from_chars_double_1e]) (simp_all add: has_prefix_def)

lemma try_1e: "tryParseNumber cvt v (span ''1e'' b) (length ''1e'') stop = Some (Returned False v)"
proof -
  from parseFloat_1e [of cvt] obtain x where "parseFloat cvt ''1e'' = Inr (False, x)" ..
  then have "strict_parse cvt v ''1e'' = Returned False v"
    by (simp add: strict_parse_fail parseInt_1e)
  with try_whole [OF scan_1e [of b], of cvt v stop] show ?thesis by simp
qed

lemma try_123_True: "tryParseNumber cvt v (span ''1.2.3'' b) (length ''1.2.3'') True = Some (Returned False v)"
  by code_simp

lemma try_00_False:
  "tryParseNumber cvt v (span ''00'' b) (length ''00'') False = Some (Returned False v)"
  by code_simp

lemma try_10_True:
  "tryParseNumber cvt v (span ''10'' b) (length ''10'') True = Some (Returned True (Int64 10))"
  by code_simp

lemma scan_total: "\<exists>p lz e. scan m n = Some (p, lz, e)"
  using scan_cursor [of m n] by blast

lemma strict_parse_False: "strict_parse cvt v s = Returned False v' \<Longrightarrow> v' = v"
  by (auto simp add: strict_parse_def split: prod.splits bool.splits option.splits sum.splits)

lemma strict_parse_Double:
  "strict_parse cvt v s = Returned True (Double d) \<Longrightarrow> parseFloat cvt s = Inr (True, Some d)"
  by (auto simp add: strict_parse_def split: prod.splits bool.splits option.splits sum.splits)

lemma strict_parse_indep:
  "strict_parse cvt v s = Returned ok v' \<Longrightarrow>
   strict_parse cvt w s = Returned ok (if ok then v' else w)"
  by (auto simp add: strict_parse_def split: prod.splits bool.splits option.splits sum.splits)

lemma finish_False: "finish cvt v p lz e = Returned False v' \<Longrightarrow> v' = v"
  by (auto simp add: finish_def dest: strict_parse_False split: if_splits)

lemma finish_Double:
  "finish cvt v p lz e = Returned True (Double d) \<Longrightarrow> \<not> isinf d \<and> \<not> isnan d"
  by (auto simp add: finish_def dest!: strict_parse_Double parseFloat_True split: if_splits)

lemma finish_indep:
  "finish cvt v p lz e = Returned ok v' \<Longrightarrow>
   finish cvt w p lz e = Returned ok (if ok then v' else w)"
  by (auto simp add: finish_def dest: strict_parse_indep split: if_splits)

lemma try_indep:
  assumes "tryParseNumber cvt v m n stop = Some (Returned ok v')"
  shows "tryParseNumber cvt w m n stop = Some (Returned ok (if ok then v' else w))"
proof -
  from scan_total obtain p lz e where sc: "scan m n = Some (p, lz, e)" by blast
  from assms show ?thesis
    unfolding try_scan [OF sc] by (simp add: finish_indep)
qed

lemma binary64_1e10: "binary64 False 1 10 = Some (Finite False 5242880000000000 (- 19))"
proof -
  have "binary64 False 1 10 =
     (if (1::nat) = 0 then Some (Finite False 0 0)
      else if (5242880000000000::nat) = 0 then None
      else if (5242880000000000::nat) = 2 ^ 53
        then (if 971 < (- 19::int) + 1 then None else Some (Finite False (2 ^ 52) (- 19 + 1)))
      else if 971 < (- 19::int) then None
      else Some (Finite False 5242880000000000 (- 19)))"
  proof (rule binary64_staged [where num = 10000000000 and den = 1 and ?k0.0 = "- 20"
        and ?k1.0 = "- 19"])
    show "(10000000000::nat) = (if 0 \<le> (10::int) then 1 * 10 ^ nat 10 else 1)" by simp
    show "(1::nat) = (if 0 \<le> (10::int) then 1 else 10 ^ nat (- 10))" by simp
    show "(- 20::int) = int (bitlen 10000000000) - int (bitlen 1) - 53"
      by (simp add: bitlen_numeral del: bitlen.simps)
    show "(- 19::int) = (if 2 ^ 53 \<le> fst (scaled 10000000000 1 (- 20)) div
                                     snd (scaled 10000000000 1 (- 20))
                          then - 20 + 1 else - 20)" by (simp add: scaled_def)
    show "(- 19::int) = max (- 19) (- 1074)" by simp
    show "(5242880000000000::nat) = nearest (scaled 10000000000 1 (- 19))"
      by (simp add: scaled_def nearest_def)
  qed
  then show ?thesis by simp
qed

lemma scan_1e10: "scan (span ''1e10'' b) (length ''1e10'') =
    Some (cursor (span ''1e10'' b) (length ''1e10'') (length ''1e10''), 0, Suc (length ''1e10''))"
  by (simp add: scan_eval)

lemma parseInt_1e10: "fst (parseInt ''1e10'') = False"
  by code_simp

lemma decimal_1: "decimal 0 ''1'' = 1"
  by code_simp

lemma decimal_10: "decimal 0 ''10'' = 10"
  by code_simp

lemma from_chars_double_1e10:
  "from_chars_double cvt ''1e10'' = float_result cvt False ''1e10'' False 4 1 10"
proof -
  have "from_chars_double cvt ''1e10'' =
          float_result cvt False ''1e10'' False 4 (decimal 0 ''1'') (int (decimal 0 ''10''))"
    by (simp add: from_chars_double_def Let_def has_prefix_def is_digit_def lower_def
        eval_nat_numeral del: decimal.simps)
  then show ?thesis by (simp only: decimal_1 decimal_10) simp
qed

lemma try_1e10:
  assumes "cvt False 1 10 = Some d" and "\<not> isinf d" and "\<not> isnan d"
  shows "tryParseNumber cvt v (span ''1e10'' b) (length ''1e10'') stop =
           Some (Returned True (Double d))"
proof -
  have "parseFloat cvt ''1e10'' = Inr (\<not> isinf d \<and> \<not> isnan d, Some d)"
  proof (rule parseFloat_numeral [OF from_chars_double_1e10])
    show "cvt False 1 10 = Some d" by (rule assms(1))
  qed (simp_all add: has_prefix_def)
  with assms have "strict_parse cvt v ''1e10'' = Returned True (Double d)"
    by (simp add: strict_parse_double parseInt_1e10)
  with try_whole [OF scan_1e10 [of b], of cvt v stop] show ?thesis by simp
qed

lemma try_123_False:
  "tryParseNumber cvt v (span ''1.2.3'' b) (length ''1.2.3'') False = Some (Returned False v)"
  by code_simp

lemma try_123:
  "tryParseNumber cvt v (span ''1.2.3'' b) (length ''1.2.3'') stop = Some (Returned False v)"
  by (cases stop) (simp_all only: try_123_True try_123_False)

lemma scan_1e_accepts:
  "\<exists>p. scan (span ''1e'' b) (length ''1e'') = Some (p, 0, 3) \<and> ch p = NUL"
  unfolding scan_1e by (simp add: cursor_def cur_def)

lemma try_zero:
  "tryParseNumber cvt v (span ''0'' b) (length ''0'') stop = Some (Returned True (Int64 0))"
  by (cases stop) (simp_all only: try_zero_True try_zero_False)

lemma try_minus_zero_False:
  "tryParseNumber cvt v (span ''-0'' b) (length ''-0'') False = Some (Returned True (Int64 0))"
  by code_simp

lemma try_minus_zero_True:
  "tryParseNumber cvt v (span ''-0'' b) (length ''-0'') True = Some (Returned True (Int64 0))"
  by code_simp

lemma try_minus_zero:
  "tryParseNumber cvt v (span ''-0'' b) (length ''-0'') stop = Some (Returned True (Int64 0))"
  by (cases stop) (simp_all only: try_minus_zero_True try_minus_zero_False)

lemma try_00:
  "tryParseNumber cvt v (span ''00'' b) (length ''00'') stop = Some (Returned False v)"
  by (cases stop) (simp_all only: try_00_True try_00_False)

lemma try_01_False:
  "tryParseNumber cvt v (span ''01'' b) (length ''01'') False = Some (Returned False v)"
  by code_simp

lemma try_01_True:
  "tryParseNumber cvt v (span ''01'' b) (length ''01'') True = Some (Returned False v)"
  by code_simp

lemma try_01:
  "tryParseNumber cvt v (span ''01'' b) (length ''01'') stop = Some (Returned False v)"
  by (cases stop) (simp_all only: try_01_True try_01_False)

lemma counter_nonzero:
  "counter run \<noteq> 0 \<longleftrightarrow> run = [] \<or> (hd run = CHR ''0'' \<and> 2 \<le> length run)"
proof (cases run)
  case Nil
  then show ?thesis by (simp add: counter_def)
next
  case (Cons c cs)
  then show ?thesis unfolding counter_zero by (cases cs) auto
qed

lemma scan_counter: "\<exists>p e. scan m n = Some (p, counter (digit_run m n), e)"
  using scan_cursor [of m n] by blast

lemma try_counter:
  assumes "counter (digit_run m n) \<noteq> 0"
  shows "tryParseNumber cvt v m n stop = Some (Returned False v)"
proof -
  from scan_counter obtain p e where "scan m n = Some (p, counter (digit_run m n), e)"
    by blast
  from try_scan [OF this] assms show ?thesis by (simp add: finish_reject)
qed

lemma try_valid_counter:
  assumes "tryParseNumber cvt v m n stop = Some (Returned True v')"
  shows "counter (digit_run m n) = 0"
proof (rule ccontr)
  assume "counter (digit_run m n) \<noteq> 0"
  from try_counter [OF this] assms show False by simp
qed

lemma digit_run_010: "digit_run (span ''-010'' (\<lambda>i. NUL)) (length ''-010'') = ''010''"
  by (simp add: digit_run_def rest_def span_def is_digit_def upt_rec)

lemma scan_slash:
  "scan (span ''1/'' b) (length ''1/'') = Some (cursor (span ''1/'' b) (length ''1/'') 1, 0, 2)"
  by (simp add: scan_eval)

lemma slash_cursor:
  "ch (cursor (span ''1/'' b) (length ''1/'') 1) = CHR ''/'' \<and>
   at (cursor (span ''1/'' b) (length ''1/'') 1) = dataSize (cursor (span ''1/'' b) (length ''1/'') 1)"
  by (simp add: cursor_def cur_def span_def)

lemma try_slash_slash:
  "tryParseNumber cvt v (span ''1/'' (\<lambda>i. CHR ''/'')) (length ''1/'') True =
     Some (Returned True (Int64 1))"
  by code_simp

lemma try_slash_NUL:
  "tryParseNumber cvt v (span ''1/'' (\<lambda>i. NUL)) (length ''1/'') True = Some (Returned False v)"
  by code_simp

lemma terminator_stop: "terminator p \<Longrightarrow> stop_at_next p = p\<lparr>ch := NUL\<rparr>"
  by (auto simp add: terminator_def stop_at_next_def)

lemma terminator_not_NUL: "terminator p \<Longrightarrow> NUL < ch p"
  by (auto simp add: terminator_def NUL_less NUL_def)

lemma scan_data:
  assumes "scan m n = Some (p, lz, e)"
  shows "data p = m" and "dataSize p = n"
proof -
  from scan_cursor [of m n] assms obtain j where "p = cursor m n j" by auto
  then show "data p = m" and "dataSize p = n" by (simp_all add: cursor_def)
qed

lemma strict_parse_valid:
  assumes "s \<noteq> []"
  shows "(\<exists>v'. strict_parse cvt v s = Returned True v') \<longleftrightarrow>
         fst (parseInt s) \<or> (\<exists>d. parseFloat cvt s = Inr (True, Some d))"
  using strict_parse_cases [OF assms, of cvt v] by auto

lemma run_end_ge: "i \<le> run_end P m n i"
  by (simp add: run_end_def)

lemma run_end_le: "i \<le> n \<Longrightarrow> run_end P m n i \<le> n"
  unfolding run_end_def by (rule length_takeWhile_rest)

lemma run_end_stop: "i \<le> n \<Longrightarrow> \<not> P (cur m n i) \<Longrightarrow> \<not> P NUL \<Longrightarrow> run_end P m n i = i"
  by (cases "i < n") (simp_all add: run_end_def rest_Cons rest_Nil cur_def)

lemma run_end_step: "i < n \<Longrightarrow> P (m i) \<Longrightarrow> run_end P m n i = run_end P m n (Suc i)"
  by (simp add: run_end_def rest_Cons)

lemma exp_digits_exact:
  "i \<le> n \<Longrightarrow> exp_digits (cursor m n i) = Some (cursor m n (run_end is_digit m n i))"
proof (induction "n - i" arbitrary: i)
  case 0
  then have "i = n" by simp
  then show ?case
    by (subst exp_digits.simps) (simp add: ch_cursor cur_def NUL_not_digit run_end_def rest_Nil)
next
  case (Suc k)
  then have lt: "i < n" by simp
  then have c: "cur m n i = m i" by (simp add: cur_def)
  show ?case
  proof (cases "is_digit (m i)")
    case False
    with lt c show ?thesis
      by (subst exp_digits.simps) (simp add: ch_cursor run_end_def rest_Cons)
  next
    case True
    from Suc.hyps(2) lt have k: "k = n - Suc i" by simp
    from lt have le: "Suc i \<le> n" by simp
    note IH = Suc.hyps(1) [OF k le]
    from True lt c show ?thesis
      by (subst exp_digits.simps) (simp add: ch_cursor next_cursor IH run_end_step)
  qed
qed

lemma skip_white_exact:
  "i \<le> n \<Longrightarrow> skip_white (cursor m n i) = Some (cursor m n (run_end is_white m n i))"
proof (induction "n - i" arbitrary: i)
  case 0
  then have "i = n" by simp
  then show ?case
    by (subst skip_white.simps) (simp add: ch_cursor cur_def NUL_not_white run_end_def rest_Nil)
next
  case (Suc k)
  then have lt: "i < n" by simp
  then have c: "cur m n i = m i" by (simp add: cur_def)
  show ?case
  proof (cases "is_white (m i)")
    case False
    with lt c show ?thesis
      by (subst skip_white.simps) (simp add: ch_cursor run_end_def rest_Cons)
  next
    case True
    from Suc.hyps(2) lt have k: "k = n - Suc i" by simp
    from lt have le: "Suc i \<le> n" by simp
    note IH = Suc.hyps(1) [OF k le]
    from True lt c show ?thesis
      by (subst skip_white.simps) (simp add: ch_cursor next_cursor IH run_end_step)
  qed
qed

lemma frac_digits_exact:
  "i < n \<Longrightarrow> frac_digits (cursor m n i) = Some (cursor m n (run_end is_digit m n (Suc i)))"
proof (induction "n - i" arbitrary: i)
  case 0
  then show ?case by simp
next
  case (Suc k)
  show ?case
  proof (cases "Suc i < n \<and> is_digit (m (Suc i))")
    case False
    then have "\<not> is_digit (cur m n (Suc i))" by (auto simp add: cur_def NUL_not_digit)
    with Suc.prems have "run_end is_digit m n (Suc i) = Suc i"
      by (simp add: run_end_stop NUL_not_digit)
    with False Suc.prems show ?thesis
      by (subst frac_digits.simps) (auto simp add: ch_cursor next_cursor cur_def)
  next
    case True
    from Suc.hyps(2) True have "k = n - Suc i" by simp
    from Suc.hyps(1) [OF this] True
    have "frac_digits (cursor m n (Suc i)) = Some (cursor m n (run_end is_digit m n (Suc (Suc i))))"
      by simp
    with True Suc.prems show ?thesis
      by (subst frac_digits.simps) (simp add: ch_cursor next_cursor cur_def run_end_step)
  qed
qed

lemma int_digits_exact:
  "i \<le> n \<Longrightarrow>
   int_digits (cursor m n i) lz t =
     Some (cursor m n (run_end is_digit m n i), count_zeros (takeWhile is_digit (rest m n i)) lz t)"
  by (simp add: int_digits_cursor run_end_def)

lemma scan_exact:
  "scan m n = Some (cursor m n (white_end m n), counter (digit_run m n), Suc (scan_end m n))"
proof -
  define s where "s = start m n"
  define i1 where "i1 = int_end m n"
  define i2 where "i2 = frac_end m n"
  define a where "a = exp_start m n"
  define i3 where "i3 = scan_end m n"
  note defs = s_def i1_def i2_def a_def i3_def
  have s: "s \<le> n" by (simp add: s_def start_def cur_minus)
  have c0: "(if ch (cursor m n 0) = CHR ''-'' then snd (next' (cursor m n 0)) else cursor m n 0)
              = cursor m n s"
    by (simp add: ch_cursor cur_minus s_def start_def next_cursor)
  have i1: "i1 \<le> n" unfolding i1_def int_end_def s_def [symmetric] using s by (rule run_end_le)
  have dr: "digit_run m n = takeWhile is_digit (rest m n s)"
    by (simp add: digit_run_def s_def start_def cur_minus)
  have 1: "int_digits (cursor m n s) 0 True =
             Some (cursor m n i1, count_zeros (digit_run m n) 0 True)"
    using s by (simp add: int_digits_exact i1_def int_end_def s_def dr)
  have lz: "(case count_zeros (digit_run m n) 0 True of (l, t) \<Rightarrow> if t then l - 1 else l) =
              counter (digit_run m n)"
    by (simp add: count_zeros_True counter_def)
  have 2: "(if ch (cursor m n i1) = CHR ''.'' then frac_digits (cursor m n i1)
            else Some (cursor m n i1)) = Some (cursor m n i2)"
    by (auto simp add: ch_cursor i2_def frac_end_def i1_def [symmetric] frac_digits_exact
        dest: cur_dot)
  have i2: "i2 \<le> n"
    using i1 by (auto simp add: i2_def frac_end_def i1_def [symmetric] dest!: cur_dot
        intro!: run_end_le)
  have a: "a \<le> n" if e: "cur m n i2 = CHR ''e'' \<or> cur m n i2 = CHR ''E''"
  proof (cases "cur m n (Suc i2) = CHR ''-'' \<or> cur m n (Suc i2) = CHR ''+''")
    case True
    then have "Suc i2 < n" by (rule cur_sign)
    with True show ?thesis by (simp add: a_def exp_start_def i2_def [symmetric])
  next
    case False
    from e have "i2 < n" by (rule cur_e)
    with False show ?thesis by (simp add: a_def exp_start_def i2_def [symmetric])
  qed
  have 3: "(if ch (cursor m n i2) = CHR ''e'' \<or> ch (cursor m n i2) = CHR ''E''
            then exp_digits
                   (if ch (snd (next' (cursor m n i2))) = CHR ''-'' \<or>
                       ch (snd (next' (cursor m n i2))) = CHR ''+''
                    then snd (next' (snd (next' (cursor m n i2))))
                    else snd (next' (cursor m n i2)))
            else Some (cursor m n i2)) = Some (cursor m n i3)"
  proof (cases "cur m n i2 = CHR ''e'' \<or> cur m n i2 = CHR ''E''")
    case False
    then show ?thesis by (simp add: ch_cursor i3_def scan_end_def i2_def [symmetric])
  next
    case True
    then have lt: "i2 < n" by (rule cur_e)
    show ?thesis
    proof (cases "cur m n (Suc i2) = CHR ''-'' \<or> cur m n (Suc i2) = CHR ''+''")
      case False
      with True lt a [OF True] show ?thesis
        by (simp add: ch_cursor next_cursor i3_def scan_end_def i2_def [symmetric]
            a_def exp_start_def exp_digits_exact)
    next
      case sgn: True
      then have "Suc i2 < n" by (rule cur_sign)
      with True sgn lt a [OF True] show ?thesis
        by (simp add: ch_cursor next_cursor i3_def scan_end_def i2_def [symmetric]
            a_def exp_start_def exp_digits_exact)
    qed
  qed
  have i3: "i3 \<le> n"
    using i2 a by (auto simp add: i3_def scan_end_def i2_def [symmetric] a_def [symmetric]
        intro!: run_end_le)
  have 4: "skip_white (cursor m n i3) = Some (cursor m n (white_end m n))"
    unfolding white_end_def i3_def [symmetric] using i3 by (rule skip_white_exact)
  show ?thesis
    unfolding scan_def Let_def next_first c0 1 i3_def [symmetric]
    by (simp add: lz [symmetric] 2 3 4 at_cursor split: prod.splits)
qed

lemma scan_end_le: "scan_end m n \<le> n" and white_end_le: "white_end m n \<le> n"
proof -
  from scan_cursor [of m n] obtain j e where
    sc: "scan m n = Some (cursor m n j, counter (digit_run m n), e)"
    and j: "j \<le> n" "e \<le> Suc j" by blast
  from sc have "cursor m n j = cursor m n (white_end m n)" and e: "e = Suc (scan_end m n)"
    unfolding scan_exact by simp_all
  then have "at (cursor m n j) = at (cursor m n (white_end m n))" by simp
  then have "j = white_end m n" by (simp add: at_cursor)
  with j e show "scan_end m n \<le> n" "white_end m n \<le> n" by simp_all
qed

lemma upt_split: "i \<le> k \<Longrightarrow> k \<le> n \<Longrightarrow> [i..<n] = [i..<k] @ [k..<n]"
  by (metis le_add_diff_inverse upt_add_eq_append)

lemma rest_append: "i \<le> k \<Longrightarrow> k \<le> n \<Longrightarrow> rest m n i = rest m k i @ rest m n k"
  unfolding rest_def map_append [symmetric] by (simp add: upt_split [symmetric])

lemma takeWhile_prefix:
  "length (takeWhile P (xs @ ys)) \<le> length xs \<Longrightarrow> takeWhile P (xs @ ys) = takeWhile P xs"
  by (induction xs) (auto split: if_splits)

lemma takeWhile_rest_prefix:
  assumes "i \<le> k" and "k \<le> n" and "run_end P m n i \<le> k"
  shows "takeWhile P (rest m k i) = takeWhile P (rest m n i)"
proof -
  have "length (rest m k i) = k - i" by (simp add: rest_def)
  with assms have "length (takeWhile P (rest m k i @ rest m n k)) \<le> length (rest m k i)"
    by (simp add: run_end_def rest_append [OF assms(1,2), symmetric])
  then have "takeWhile P (rest m k i @ rest m n k) = takeWhile P (rest m k i)"
    by (rule takeWhile_prefix)
  then show ?thesis by (simp add: rest_append [OF assms(1,2)])
qed

lemma run_end_prefix:
  "i \<le> k \<Longrightarrow> k \<le> n \<Longrightarrow> run_end P m n i \<le> k \<Longrightarrow> run_end P m k i = run_end P m n i"
  by (simp add: run_end_def takeWhile_rest_prefix [unfolded run_end_def])

lemma cur_prefix_iff:
  assumes "i \<le> k" and "k \<le> n" and "\<not> P NUL" and "k < n \<longrightarrow> \<not> P (m k)"
  shows "P (cur m k i) \<longleftrightarrow> P (cur m n i)"
proof (cases "i < k")
  case True
  with assms(2) show ?thesis by (simp add: cur_def)
next
  case False
  with assms(1) have "i = k" by simp
  with assms(3,4) show ?thesis by (simp add: cur_def)
qed

lemma start_le: "start m n \<le> int_end m n"
  by (simp add: int_end_def run_end_ge)

lemma int_end_le: "int_end m n \<le> frac_end m n"
  using run_end_ge [of "Suc (int_end m n)" is_digit m n] by (simp add: frac_end_def)

lemma exp_start_ge: "Suc (frac_end m n) \<le> exp_start m n"
  by (simp add: exp_start_def)

lemma frac_end_le: "frac_end m n \<le> scan_end m n"
  using run_end_ge [of "exp_start m n" is_digit m n] exp_start_ge [of m n]
  by (simp add: scan_end_def)

lemma scan_end_le_white: "scan_end m n \<le> white_end m n"
  by (simp add: white_end_def run_end_ge)

lemma scan_prefix:
  assumes k: "white_end m n = k" and i: "k < n \<longrightarrow> inert (m k)"
  shows "scan m k = Some (cursor m k k, counter (digit_run m n), Suc (scan_end m n))"
proof -
  from k have kn: "k \<le> n" using white_end_le [of m n] by simp
  from k have i3: "scan_end m n \<le> k" using scan_end_le_white [of m n] by simp
  with frac_end_le [of m n] have i2: "frac_end m n \<le> k" by simp
  with int_end_le [of m n] have i1: "int_end m n \<le> k" by simp
  with start_le [of m n] have s: "start m n \<le> k" by simp
  have special: "cur m k j = c \<longleftrightarrow> cur m n j = c"
    if "j \<le> k" and "c \<noteq> NUL" and "inert c \<Longrightarrow> False" for j c
  proof (rule cur_prefix_iff [where P = "\<lambda>x. x = c"])
    show "\<not> NUL = c" using that(2) by simp
    show "k < n \<longrightarrow> m k \<noteq> c" using i that(3) by auto
  qed (rule that(1), rule kn)
  have 0: "start m k = start m n"
    using special [of 0 "CHR ''-''"] by (simp add: start_def inert_def NUL_def)
  have 1: "int_end m k = int_end m n"
    unfolding int_end_def 0 using s kn i1 [unfolded int_end_def] by (rule run_end_prefix)
  have dr: "digit_run m k = digit_run m n"
  proof -
    have "takeWhile is_digit (rest m k (start m n)) = takeWhile is_digit (rest m n (start m n))"
      using s kn i1 [unfolded int_end_def] by (rule takeWhile_rest_prefix)
    then show ?thesis
      using 0 by (simp add: digit_run_def start_def cur_minus)
  qed
  have dot: "cur m k (int_end m n) = CHR ''.'' \<longleftrightarrow> cur m n (int_end m n) = CHR ''.''"
    using i1 by (rule special) (simp_all add: inert_def NUL_def)
  have 2: "frac_end m k = frac_end m n"
  proof (cases "cur m n (int_end m n) = CHR ''.''")
    case False
    with dot show ?thesis by (simp add: frac_end_def 1)
  next
    case True
    then have r: "frac_end m n = run_end is_digit m n (Suc (int_end m n))"
      by (simp add: frac_end_def)
    with i2 run_end_ge [of "Suc (int_end m n)" is_digit m n]
    have "Suc (int_end m n) \<le> k" by simp
    from this kn i2 [unfolded r]
    have "run_end is_digit m k (Suc (int_end m n)) = run_end is_digit m n (Suc (int_end m n))"
      by (rule run_end_prefix)
    with True dot show ?thesis by (simp add: frac_end_def 1)
  qed
  have e: "cur m k (frac_end m n) = CHR ''e'' \<or> cur m k (frac_end m n) = CHR ''E'' \<longleftrightarrow>
           cur m n (frac_end m n) = CHR ''e'' \<or> cur m n (frac_end m n) = CHR ''E''"
    using special [OF i2, of "CHR ''e''"] special [OF i2, of "CHR ''E''"]
    by (simp add: inert_def NUL_def)
  have 3: "scan_end m k = scan_end m n"
  proof (cases "cur m n (frac_end m n) = CHR ''e'' \<or> cur m n (frac_end m n) = CHR ''E''")
    case False
    with e show ?thesis by (simp add: scan_end_def 2)
  next
    case True
    then have r: "scan_end m n = run_end is_digit m n (exp_start m n)"
      by (simp add: scan_end_def)
    with i3 run_end_ge [of "exp_start m n" is_digit m n] have a: "exp_start m n \<le> k" by simp
    with exp_start_ge [of m n] have b: "Suc (frac_end m n) \<le> k" by simp
    have "exp_start m k = exp_start m n"
      using special [OF b, of "CHR ''-''"] special [OF b, of "CHR ''+''"]
      by (simp add: exp_start_def 2 inert_def NUL_def)
    moreover from a kn i3 [unfolded r]
    have "run_end is_digit m k (exp_start m n) = run_end is_digit m n (exp_start m n)"
      by (rule run_end_prefix)
    ultimately show ?thesis using True e by (simp add: scan_end_def 2)
  qed
  have 4: "white_end m k = k"
  proof -
    from i3 kn k have "run_end is_white m k (scan_end m n) = run_end is_white m n (scan_end m n)"
      by (intro run_end_prefix) (simp_all add: white_end_def)
    with k show ?thesis by (simp add: white_end_def 3)
  qed
  show ?thesis unfolding scan_exact 3 4 dr ..
qed

lemma terminator_inert:
  assumes "terminator p" shows "inert (ch p)" and "ch p \<noteq> NUL"
  using assms by (auto simp add: terminator_def inert_def is_digit_def is_white_def NUL_def)

lemma try_terminator_prefix:
  assumes sc: "scan m n = Some (p, lz, e)" and t: "terminator p"
  shows "tryParseNumber cvt v m n True = tryParseNumber cvt v m (at p - 1) stop"
proof -
  let ?k = "white_end m n"
  from sc have p: "p = cursor m n ?k" and lz: "lz = counter (digit_run m n)"
    and e: "e = Suc (scan_end m n)" unfolding scan_exact by simp_all
  from terminator_inert [OF t] have c: "inert (cur m n ?k)" "cur m n ?k \<noteq> NUL"
    by (simp_all add: p ch_cursor)
  then have "?k < n \<longrightarrow> inert (m ?k)" by (auto simp add: cur_def split: if_splits)
  from scan_prefix [OF refl this]
  have sk: "scan m ?k = Some (cursor m ?k ?k, lz, e)" by (simp add: lz e)
  have n: "ch (cursor m ?k ?k) = NUL" by (simp add: cursor_def cur_def)
  have "tryParseNumber cvt v m ?k stop =
          Some (if lz \<noteq> 0 then Returned False v else strict_parse cvt v (bytes m (e - 1)))"
    unfolding try_scan [OF sk]
    by (simp add: stop_at_next_NUL [OF n] finish_def NUL_less n data_cursor)
  moreover have "tryParseNumber cvt v m n True =
          Some (if lz \<noteq> 0 then Returned False v else strict_parse cvt v (bytes m (e - 1)))"
    unfolding try_scan [OF sc]
    by (simp add: terminator_stop [OF t] finish_def NUL_less scan_data(1) [OF sc])
  ultimately show ?thesis by (simp add: p at_cursor)
qed

lemma scan_12_comma:
  "scan (span ''12 ,'' b) (length ''12 ,'') = Some (cursor (span ''12 ,'' b) (length ''12 ,'') 3, 0, 3)"
  by (simp add: scan_eval)

lemma parseInt_12: "parseInt ''12'' = (True, Some 12)"
  by code_simp

lemma bytes_12: "bytes (span ''12 ,'' b) 2 = ''12''"
  by (simp add: bytes_def span_def upt_rec)

lemma binary64_2p63:
  "binary64 False 9223372036854775808 0 = Some (Finite False 4503599627370496 11)"
proof -
  have "binary64 False 9223372036854775808 0 =
     (if (9223372036854775808::nat) = 0 then Some (Finite False 0 0)
      else if (4503599627370496::nat) = 0 then None
      else if (4503599627370496::nat) = 2 ^ 53
        then (if 971 < (11::int) + 1 then None else Some (Finite False (2 ^ 52) (11 + 1)))
      else if 971 < (11::int) then None
      else Some (Finite False 4503599627370496 11))"
  proof (rule binary64_staged [where num = 9223372036854775808 and den = 1 and ?k0.0 = 10
        and ?k1.0 = 11])
    show "(9223372036854775808::nat) =
            (if 0 \<le> (0::int) then 9223372036854775808 * 10 ^ nat 0 else 9223372036854775808)"
      by simp
    show "(1::nat) = (if 0 \<le> (0::int) then 1 else 10 ^ nat (- 0))" by simp
    show "(10::int) = int (bitlen 9223372036854775808) - int (bitlen 1) - 53"
      by (simp add: bitlen_numeral del: bitlen.simps)
    show "(11::int) = (if 2 ^ 53 \<le> fst (scaled 9223372036854775808 1 10) div
                                   snd (scaled 9223372036854775808 1 10)
                        then 10 + 1 else 10)" by (simp add: scaled_def)
    show "(11::int) = max 11 (- 1074)" by simp
    show "(4503599627370496::nat) = nearest (scaled 9223372036854775808 1 11)"
      by (simp add: scaled_def nearest_def)
  qed
  then show ?thesis by simp
qed

lemma scan_2p63: "scan (span ''9223372036854775808'' b) (length ''9223372036854775808'') =
    Some (cursor (span ''9223372036854775808'' b) (length ''9223372036854775808'') (length ''9223372036854775808''), 0, Suc (length ''9223372036854775808''))"
  by (simp add: scan_eval)

lemma int_value_2p63: "int_value ''9223372036854775808'' = 9223372036854775808"
  by (simp add: int_value_def has_prefix_def)

lemma Merge_defined:
  "ext \<noteq> Undefined \<Longrightarrow> \<not> ((\<exists>x. base = Map x) \<and> (\<exists>y. ext = Map y)) \<Longrightarrow>
   Merge base ext = clone ext"
  by (cases base; cases ext) simp_all

lemma merge_entries_map_of:
  "map_of (merge_entries bm em) k =
     (case map_of bm k of
        None \<Rightarrow> None
      | Some b \<Rightarrow> Some (case map_of em k of None \<Rightarrow> clone b | Some e \<Rightarrow> Merge b e))"
proof (induction bm)
  case Nil
  show ?case by simp
next
  case (Cons x bm)
  obtain k' b' where "x = (k', b')" by (cases x)
  with Cons.IH show ?case by simp
qed

lemma ext_only_map_of:
  assumes "distinct (map fst em)"
  shows "map_of (filter (\<lambda>(k, e). k \<notin> keys bm \<and> e \<noteq> Undefined)
                   (map (\<lambda>(k, e). (k, clone e)) em)) k =
     (if k \<in> keys bm then None
      else case map_of em k of
             None \<Rightarrow> None
           | Some e \<Rightarrow> if e = Undefined then None else Some (clone e))"
  using assms
proof (induction em)
  case Nil
  then show ?case by simp
next
  case (Cons x em)
  obtain k' e' where x: "x = (k', e')" by (cases x)
  from Cons.prems x have nk: "k' \<notin> fst ` set em" and d: "distinct (map fst em)" by auto
  from nk have "map_of em k' = None" by (simp add: map_of_eq_None_iff)
  with Cons.IH [OF d] x show ?case by (auto simp add: clone_def)
qed

lemma keys_map_of: "k \<in> keys m \<longleftrightarrow> map_of m k \<noteq> None"
  by (simp add: keys_def map_of_eq_None_iff)

lemma Merge_map_of:
  assumes "distinct (map fst em)"
  shows "\<exists>rm. Merge (Map bm) (Map em) = Map rm \<and>
     (\<forall>k. map_of rm k =
        (case map_of bm k of
           Some b \<Rightarrow> Some (case map_of em k of None \<Rightarrow> clone b | Some e \<Rightarrow> Merge b e)
         | None \<Rightarrow> (case map_of em k of
                      None \<Rightarrow> None
                    | Some e \<Rightarrow> if e = Undefined then None else Some (clone e))))"
proof -
  let ?F = "filter (\<lambda>(k, e). k \<notin> keys bm \<and> e \<noteq> Undefined) (map (\<lambda>(k, e). (k, clone e)) em)"
  have "map_of (merge_entries bm em @ ?F) k =
        (case map_of bm k of
           Some b \<Rightarrow> Some (case map_of em k of None \<Rightarrow> clone b | Some e \<Rightarrow> Merge b e)
         | None \<Rightarrow> (case map_of em k of
                      None \<Rightarrow> None
                    | Some e \<Rightarrow> if e = Undefined then None else Some (clone e)))" for k
    unfolding map_of_append map_add_def merge_entries_map_of ext_only_map_of [OF assms]
    by (auto simp add: keys_map_of split: option.splits)
  then show ?thesis by simp
qed

lemma lookup_Map: "lookup (Map m) k = (case map_of m k of Some x \<Rightarrow> x | None \<Rightarrow> Undefined)"
  by (simp add: lookup_def)

section \<open>The numeral text and the number grammar\<close>

subsection \<open>The texts of the grammar\<close>

text \<open>
  A text splits into its sign, integer digits, fraction, exponent and what is left;
  the parts of a concatenation built along the grammar are its pieces.  So
  \<open>spec_number\<close>, \<open>number_opt_frac\<close> and \<open>integer_text\<close> hold exactly of the
  concatenations that the grammars describe.
\<close>

lemma digits_takeWhile: "takeWhile is_digit xs \<noteq> [] \<Longrightarrow> digits (takeWhile is_digit xs)"
  by (auto simp add: digits_def list_all_iff dest: set_takeWhileD)

lemma run_then:
  assumes "digits ip" and "r = [] \<or> \<not> is_digit (hd r)"
  shows "takeWhile is_digit (ip @ r) = ip" and "dropWhile is_digit (ip @ r) = r"
proof -
  from assms(1) have a: "\<And>x. x \<in> set ip \<Longrightarrow> is_digit x" by (simp add: digits_def list_all_iff)
  from assms(2) have t: "takeWhile is_digit r = []" and d: "dropWhile is_digit r = r"
    by (cases r; auto)+
  from a t show "takeWhile is_digit (ip @ r) = ip" by (simp add: takeWhile_append2)
  from a d show "dropWhile is_digit (ip @ r) = r" by (simp add: dropWhile_append2)
qed

lemma run_then_opt:
  assumes "list_all is_digit f" and "r = [] \<or> \<not> is_digit (hd r)"
  shows "takeWhile is_digit (f @ r) = f" and "dropWhile is_digit (f @ r) = r"
proof -
  from assms(1) have a: "\<And>x. x \<in> set f \<Longrightarrow> is_digit x" by (simp add: list_all_iff)
  from assms(2) have t: "takeWhile is_digit r = []" and d: "dropWhile is_digit r = r"
    by (cases r; auto)+
  from a t show "takeWhile is_digit (f @ r) = f" by (simp add: takeWhile_append2)
  from a d show "dropWhile is_digit (f @ r) = r" by (simp add: dropWhile_append2)
qed

lemma not_digit: "\<not> is_digit CHR ''.''" "\<not> is_digit CHR ''e''" "\<not> is_digit CHR ''E''"
  "\<not> is_digit CHR ''-''" "\<not> is_digit CHR ''+''"
  by (simp_all add: is_digit_def less_eq_char_def)

lemma has_prefix_Cons: "has_prefix [c] s \<longleftrightarrow> s \<noteq> [] \<and> hd s = c"
  by (cases s) (simp_all add: has_prefix_def)

lemma split_sign: "s = (if has_prefix ''-'' s then ''-'' else []) @ body s"
  by (cases s) (auto simp add: body_def has_prefix_def)

lemma split_int: "body s = int_part s @ after_int s"
  by (simp add: int_part_def after_int_def)

lemma split_frac:
  "after_int s = (if point s then CHR ''.'' # frac_part s else []) @ after_frac s"
proof (cases "point s")
  case False
  then show ?thesis by (simp add: after_frac_def)
next
  case True
  then obtain t where "after_int s = CHR ''.'' # t"
    by (cases "after_int s") (auto simp add: point_def has_prefix_def)
  with True show ?thesis by (simp add: frac_part_def after_frac_def)
qed

lemma split_exp:
  "after_frac s =
     (if exp_mark s then take 1 (after_frac s) @ exp_sign s @ exp_part s else []) @ after_exp s"
proof (cases "exp_mark s")
  case False
  then show ?thesis by (simp add: after_exp_def)
next
  case True
  let ?r = "tl (after_frac s)"
  from True have ne: "after_frac s \<noteq> []" by (auto simp add: exp_mark_def has_prefix_def)
  then have 1: "after_frac s = take 1 (after_frac s) @ ?r" by (cases "after_frac s") simp_all
  have "exp_sign s = take (length (exp_sign s)) ?r"
    by (cases ?r) (auto simp add: exp_sign_def has_prefix_def)
  then have 2: "?r = exp_sign s @ drop (length (exp_sign s)) ?r"
    by (metis append_take_drop_id)
  have 3: "drop (length (exp_sign s)) ?r = exp_part s @ after_exp s"
    using True by (simp add: exp_part_def after_exp_def)
  from True show ?thesis
    by (simp only: if_True append_assoc) (metis 1 2 3)
qed

lemma parts_of_concat:
  assumes sg: "sg = [] \<or> sg = ''-''" and ip: "digits ip"
    and fr: "fr = [] \<or> (\<exists>f. fr = CHR ''.'' # f \<and> list_all is_digit f)"
    and ex: "ex = [] \<or> (\<exists>m g d. ex = m # g @ d \<and> (m = CHR ''e'' \<or> m = CHR ''E'') \<and>
                (g = [] \<or> g = ''+'' \<or> g = ''-'') \<and> digits d)"
  shows "int_part (sg @ ip @ fr @ ex) = ip"
    and "point (sg @ ip @ fr @ ex) \<longleftrightarrow> fr \<noteq> []"
    and "frac_part (sg @ ip @ fr @ ex) = tl fr"
    and "exp_mark (sg @ ip @ fr @ ex) \<longleftrightarrow> ex \<noteq> []"
    and "ex \<noteq> [] \<Longrightarrow> exp_part (sg @ ip @ fr @ ex) \<noteq> []"
    and "after_exp (sg @ ip @ fr @ ex) = []"
proof -
  let ?s = "sg @ ip @ fr @ ex"
  from ip obtain c cs where c: "ip = c # cs" "is_digit c" by (cases ip) (auto simp add: digits_def)
  then have "c \<noteq> CHR ''-''" using not_digit(4) by auto
  with sg c have b: "body ?s = ip @ fr @ ex" by (auto simp add: body_def has_prefix_def)
  from ex have exh: "ex = [] \<or> \<not> is_digit (hd ex)" using not_digit by auto
  from fr exh have r1: "fr @ ex = [] \<or> \<not> is_digit (hd (fr @ ex))" using not_digit by auto
  from run_then [OF ip r1] have i: "int_part ?s = ip" and a: "after_int ?s = fr @ ex"
    by (simp_all add: int_part_def after_int_def b)
  show "int_part ?s = ip" by (rule i)
  from fr ex a show p: "point ?s \<longleftrightarrow> fr \<noteq> []"
    by (auto simp add: point_def has_prefix_def)
  have f: "frac_part ?s = tl fr \<and> after_frac ?s = ex"
  proof (cases "fr = []")
    case True
    with p a show ?thesis by (simp add: frac_part_def after_frac_def)
  next
    case False
    with fr obtain f where f: "fr = CHR ''.'' # f" "list_all is_digit f" by auto
    from run_then_opt [OF f(2) exh] p False f(1) a show ?thesis
      by (simp add: frac_part_def after_frac_def)
  qed
  then have af: "after_frac ?s = ex" by simp
  from f show "frac_part ?s = tl fr" by simp
  from ex af show m: "exp_mark ?s \<longleftrightarrow> ex \<noteq> []"
    by (auto simp add: exp_mark_def has_prefix_def)
  have e: "(ex \<noteq> [] \<longrightarrow> exp_part ?s \<noteq> []) \<and> after_exp ?s = []"
  proof (cases "ex = []")
    case True
    with m af show ?thesis by (simp add: after_exp_def)
  next
    case False
    with ex obtain k g d where x: "ex = k # g @ d" "g = [] \<or> g = ''+'' \<or> g = ''-''" "digits d"
      by auto
    from x(3) obtain y ys where d: "d = y # ys" "is_digit y" by (cases d) (auto simp add: digits_def)
    then have "y \<noteq> CHR ''-''" "y \<noteq> CHR ''+''" using not_digit by auto
    with x(1,2) d af have g: "exp_sign ?s = g"
      by (auto simp add: exp_sign_def has_prefix_def)
    from x(3) have "list_all is_digit d" by (simp add: digits_def)
    from run_then_opt [OF this, of "[]"] have tw: "takeWhile is_digit d = d"
      and dw: "dropWhile is_digit d = []" by simp_all
    from m False x(1) af g have "exp_part ?s = takeWhile is_digit d"
      and "after_exp ?s = dropWhile is_digit d"
      by (simp_all add: exp_part_def after_exp_def)
    then have "exp_part ?s = d" and "after_exp ?s = []" by (simp_all only: tw dw)
    with d(1) show ?thesis by simp
  qed
  then show "ex \<noteq> [] \<Longrightarrow> exp_part ?s \<noteq> []" and "after_exp ?s = []" by simp_all
qed

lemma spec_number_grammar:
  "spec_number s \<longleftrightarrow>
     (\<exists>sg ip fr ex. s = sg @ ip @ fr @ ex \<and> (sg = [] \<or> sg = ''-'') \<and> digits ip \<and>
        (fr = [] \<or> (\<exists>f. fr = CHR ''.'' # f \<and> digits f)) \<and>
        (ex = [] \<or> (\<exists>m g d. ex = m # g @ d \<and> (m = CHR ''e'' \<or> m = CHR ''E'') \<and>
                      (g = [] \<or> g = ''+'' \<or> g = ''-'') \<and> digits d)))"
    (is "_ \<longleftrightarrow> ?G")
proof
  assume ?G
  then obtain sg ip fr ex where s: "s = sg @ ip @ fr @ ex" and sg: "sg = [] \<or> sg = ''-''"
    and ip: "digits ip" and fr: "fr = [] \<or> (\<exists>f. fr = CHR ''.'' # f \<and> digits f)"
    and ex: "ex = [] \<or> (\<exists>m g d. ex = m # g @ d \<and> (m = CHR ''e'' \<or> m = CHR ''E'') \<and>
                      (g = [] \<or> g = ''+'' \<or> g = ''-'') \<and> digits d)"
    by blast
  from fr have fr': "fr = [] \<or> (\<exists>f. fr = CHR ''.'' # f \<and> list_all is_digit f)"
    by (auto simp add: digits_def)
  note p = parts_of_concat [OF sg ip fr' ex]
  from ip fr show "spec_number s"
    unfolding spec_number_def s p using p(5) by (auto simp add: digits_def)
next
  assume n: "spec_number s"
  let ?sg = "if has_prefix ''-'' s then ''-'' else []"
  let ?fr = "if point s then CHR ''.'' # frac_part s else []"
  let ?ex = "if exp_mark s then take 1 (after_frac s) @ exp_sign s @ exp_part s else []"
  from n have a: "int_part s \<noteq> []" "point s \<longrightarrow> frac_part s \<noteq> []"
    "exp_mark s \<longrightarrow> exp_part s \<noteq> []" "after_exp s = []" by (simp_all add: spec_number_def)
  have "s = ?sg @ body s" by (rule split_sign)
  also have "body s = int_part s @ after_int s" by (rule split_int)
  also have "after_int s = ?fr @ after_frac s" by (rule split_frac)
  also have "after_frac s = ?ex @ after_exp s" by (rule split_exp)
  finally have s: "s = ?sg @ int_part s @ ?fr @ ?ex" using a(4) by simp
  have 1: "?sg = [] \<or> ?sg = ''-''" by simp
  from a(1) have 2: "digits (int_part s)" unfolding int_part_def by (rule digits_takeWhile)
  have 3: "?fr = [] \<or> (\<exists>f. ?fr = CHR ''.'' # f \<and> digits f)"
  proof (cases "point s")
    case True
    with a(2) have "digits (frac_part s)"
      by (simp add: frac_part_def digits_takeWhile)
    with True show ?thesis by simp
  qed simp
  have 4: "?ex = [] \<or> (\<exists>m g d. ?ex = m # g @ d \<and> (m = CHR ''e'' \<or> m = CHR ''E'') \<and>
                      (g = [] \<or> g = ''+'' \<or> g = ''-'') \<and> digits d)"
  proof (cases "exp_mark s")
    case True
    then obtain m t where m: "after_frac s = m # t" "m = CHR ''e'' \<or> m = CHR ''E''"
      by (cases "after_frac s") (auto simp add: exp_mark_def has_prefix_def)
    have g: "exp_sign s = [] \<or> exp_sign s = ''+'' \<or> exp_sign s = ''-''"
      by (cases "tl (after_frac s)") (auto simp add: exp_sign_def has_prefix_def)
    from True a(3) have "digits (exp_part s)" by (simp add: exp_part_def digits_takeWhile)
    with True m g show ?thesis by auto
  qed simp
  from s 1 2 3 4 show ?G by blast
qed

lemma number_opt_frac_grammar:
  "number_opt_frac s \<longleftrightarrow>
     (\<exists>sg ip fr ex. s = sg @ ip @ fr @ ex \<and> (sg = [] \<or> sg = ''-'') \<and> digits ip \<and>
        (fr = [] \<or> (\<exists>f. fr = CHR ''.'' # f \<and> list_all is_digit f)) \<and>
        (ex = [] \<or> (\<exists>m g d. ex = m # g @ d \<and> (m = CHR ''e'' \<or> m = CHR ''E'') \<and>
                      (g = [] \<or> g = ''+'' \<or> g = ''-'') \<and> digits d)))"
    (is "_ \<longleftrightarrow> ?G")
proof
  assume ?G
  then obtain sg ip fr ex where s: "s = sg @ ip @ fr @ ex" and sg: "sg = [] \<or> sg = ''-''"
    and ip: "digits ip" and fr: "fr = [] \<or> (\<exists>f. fr = CHR ''.'' # f \<and> list_all is_digit f)"
    and ex: "ex = [] \<or> (\<exists>m g d. ex = m # g @ d \<and> (m = CHR ''e'' \<or> m = CHR ''E'') \<and>
                      (g = [] \<or> g = ''+'' \<or> g = ''-'') \<and> digits d)"
    by blast
  note p = parts_of_concat [OF sg ip fr ex]
  from ip show "number_opt_frac s"
    unfolding number_opt_frac_def s p using p(5) by (auto simp add: digits_def)
next
  assume n: "number_opt_frac s"
  let ?sg = "if has_prefix ''-'' s then ''-'' else []"
  let ?fr = "if point s then CHR ''.'' # frac_part s else []"
  let ?ex = "if exp_mark s then take 1 (after_frac s) @ exp_sign s @ exp_part s else []"
  from n have a: "int_part s \<noteq> []" "exp_mark s \<longrightarrow> exp_part s \<noteq> []" "after_exp s = []"
    by (simp_all add: number_opt_frac_def)
  have "s = ?sg @ body s" by (rule split_sign)
  also have "body s = int_part s @ after_int s" by (rule split_int)
  also have "after_int s = ?fr @ after_frac s" by (rule split_frac)
  also have "after_frac s = ?ex @ after_exp s" by (rule split_exp)
  finally have s: "s = ?sg @ int_part s @ ?fr @ ?ex" using a(3) by simp
  have 1: "?sg = [] \<or> ?sg = ''-''" by simp
  from a(1) have 2: "digits (int_part s)" unfolding int_part_def by (rule digits_takeWhile)
  have 3: "?fr = [] \<or> (\<exists>f. ?fr = CHR ''.'' # f \<and> list_all is_digit f)"
    by (auto simp add: frac_part_def list_all_iff dest: set_takeWhileD)
  have 4: "?ex = [] \<or> (\<exists>m g d. ?ex = m # g @ d \<and> (m = CHR ''e'' \<or> m = CHR ''E'') \<and>
                      (g = [] \<or> g = ''+'' \<or> g = ''-'') \<and> digits d)"
  proof (cases "exp_mark s")
    case True
    then obtain m t where m: "after_frac s = m # t" "m = CHR ''e'' \<or> m = CHR ''E''"
      by (cases "after_frac s") (auto simp add: exp_mark_def has_prefix_def)
    have g: "exp_sign s = [] \<or> exp_sign s = ''+'' \<or> exp_sign s = ''-''"
      by (cases "tl (after_frac s)") (auto simp add: exp_sign_def has_prefix_def)
    from True a(2) have "digits (exp_part s)" by (simp add: exp_part_def digits_takeWhile)
    with True m g show ?thesis by auto
  qed simp
  from s 1 2 3 4 show ?G by blast
qed

lemma integer_text_grammar:
  "integer_text s \<longleftrightarrow> (\<exists>sg ip. s = sg @ ip \<and> (sg = [] \<or> sg = ''-'') \<and> digits ip)"
    (is "_ \<longleftrightarrow> ?G")
proof
  assume ?G
  then obtain sg ip where s: "s = sg @ ip @ [] @ []" and sg: "sg = [] \<or> sg = ''-''"
    and ip: "digits ip" by auto
  have fr: "[] = [] \<or> (\<exists>f. [] = CHR ''.'' # f \<and> list_all is_digit f)" by simp
  have ex: "[] = [] \<or> (\<exists>m g d. [] = m # g @ d \<and> (m = CHR ''e'' \<or> m = CHR ''E'') \<and>
                      (g = [] \<or> g = ''+'' \<or> g = ''-'') \<and> digits d)" by simp
  note p = parts_of_concat [OF sg ip fr ex, folded s]
  from p(2) split_frac [of s] have "after_int s = after_frac s" by simp
  also from p(4,6) split_exp [of s] have "after_frac s = []" by simp
  finally show "integer_text s" using p(1) ip by (simp add: integer_text_def digits_def)
next
  assume i: "integer_text s"
  let ?sg = "if has_prefix ''-'' s then ''-'' else []"
  have "s = ?sg @ body s" by (rule split_sign)
  also have "body s = int_part s @ after_int s" by (rule split_int)
  finally have "s = ?sg @ int_part s" using i by (simp add: integer_text_def)
  moreover have "?sg = [] \<or> ?sg = ''-''" by simp
  moreover from i have "digits (int_part s)"
    unfolding int_part_def integer_text_def by (simp add: digits_takeWhile)
  ultimately show ?G by blast
qed

lemma integer_spec_number: "integer_text s \<Longrightarrow> spec_number s"
  by (simp add: integer_text_def spec_number_def point_def after_frac_def exp_mark_def after_exp_def
      has_prefix_def)

lemma spec_number_opt_frac: "spec_number s \<Longrightarrow> number_opt_frac s"
  by (simp add: spec_number_def number_opt_frac_def)

lemma opt_frac_only:
  "number_opt_frac s \<and> \<not> spec_number s \<longleftrightarrow> number_opt_frac s \<and> point s \<and> frac_part s = []"
  by (auto simp add: spec_number_def number_opt_frac_def)

subsection \<open>The strict parses along the grammar\<close>

text \<open>
  What \<^verbatim>\<open>std::from_chars\<close> consumes and stores, in terms of the parts of the text: the
  integer parse takes the sign and the integer digits, the double parse takes the
  fraction too, and the exponent when it has a digit.  On a text with integer digits
  this gives the outcome of the two strict parses.
\<close>

lemma all_digits: "dropWhile P xs = [] \<Longrightarrow> takeWhile P xs = xs"
  by (metis takeWhile_dropWhile_id append_Nil2)

lemma length_body: "length s = (if has_prefix ''-'' s then 1 else 0) + length (body s)"
  by (cases s) (auto simp add: body_def has_prefix_def)

lemma integer_text_value:
  "integer_text s \<Longrightarrow>
   int_value s = (if has_prefix ''-'' s then - int (decimal 0 (int_part s)) else int (decimal 0 (int_part s)))"
  by (auto simp add: integer_text_def int_value_def int_part_def after_int_def body_def all_digits)

lemma from_chars_int64_parts:
  "from_chars_int64 s =
     (if int_part s = [] then \<lparr>ptr = 0, ec = invalid_argument, written = None\<rparr>
      else if in_int64 (if has_prefix ''-'' s then - int (decimal 0 (int_part s))
                        else int (decimal 0 (int_part s)))
        then \<lparr>ptr = (if has_prefix ''-'' s then 1 else 0) + length (int_part s), ec = errc_none,
              written = Some (word_of_int (if has_prefix ''-'' s then - int (decimal 0 (int_part s))
                        else int (decimal 0 (int_part s))))\<rparr>
      else \<lparr>ptr = (if has_prefix ''-'' s then 1 else 0) + length (int_part s),
             ec = result_out_of_range, written = None\<rparr>)"
  unfolding from_chars_int64_def Let_def int_part_def body_def in_int64_def
  by (simp add: not_le not_less)

lemma whole_run: "length (takeWhile P xs) = length xs \<longleftrightarrow> dropWhile P xs = []"
  by (metis length_takeWhile_le takeWhile_dropWhile_id length_append add_cancel_right_right length_0_conv)

lemma int_part_whole:
  "(if has_prefix ''-'' s then 1 else 0) + length (int_part s) = length s \<longleftrightarrow> after_int s = []"
  using length_body [of s] whole_run [of is_digit "body s"]
  by (auto simp add: int_part_def after_int_def)

lemma parseInt_integer:
  assumes "integer_text s" and "in_int64 (int_value s)"
  shows "parseInt s = (True, Some (word_of_int (int_value s)))"
proof -
  from assms(1) have a: "int_part s \<noteq> []" "after_int s = []" by (simp_all add: integer_text_def)
  from int_part_whole [of s] a(2)
  have l: "(if has_prefix ''-'' s then 1 else 0) + length (int_part s) = length s" by simp
  from assms show ?thesis
    unfolding parseInt_def Let_def from_chars_int64_parts integer_text_value [OF assms(1), symmetric]
    using a(1) l by simp
qed

lemma parseInt_fst:
  assumes "s \<noteq> []"
  shows "fst (parseInt s) \<longleftrightarrow> integer_text s \<and> in_int64 (int_value s)"
proof (cases "integer_text s")
  case True
  from True have a: "int_part s \<noteq> []" "after_int s = []" by (simp_all add: integer_text_def)
  from int_part_whole [of s] a(2)
  have l: "(if has_prefix ''-'' s then 1 else 0) + length (int_part s) = length s" by simp
  show ?thesis
    unfolding parseInt_def Let_def from_chars_int64_parts integer_text_value [OF True, symmetric]
    using a(1) l True by simp
next
  case False
  then have "int_part s = [] \<or> after_int s \<noteq> []" by (simp add: integer_text_def)
  with int_part_whole [of s] assms False show ?thesis
    unfolding parseInt_def Let_def from_chars_int64_parts by auto
qed

lemma length_exp_sign:
  "length (exp_sign s) = (if has_prefix ''-'' (tl (after_frac s)) \<or> has_prefix ''+'' (tl (after_frac s)) then 1 else 0)"
  by (cases "tl (after_frac s)") (auto simp add: exp_sign_def has_prefix_def)

lemma length_run: "length xs = length (takeWhile P xs) + length (dropWhile P xs)"
  by (metis length_append takeWhile_dropWhile_id)

lemma length_after_int: "length (body s) = length (int_part s) + length (after_int s)"
  unfolding int_part_def after_int_def by (rule length_run)

lemma length_after_frac:
  "length (after_int s) = (if point s then 1 + length (frac_part s) else 0) + length (after_frac s)"
proof (cases "point s")
  case False
  then show ?thesis by (simp add: after_frac_def)
next
  case True
  then have "after_int s \<noteq> []" by (simp add: point_def has_prefix_Cons)
  then have "length (after_int s) = 1 + length (tl (after_int s))" by (cases "after_int s") simp_all
  also have "length (tl (after_int s)) = length (frac_part s) + length (after_frac s)"
    unfolding frac_part_def after_frac_def if_P [OF True] by (rule length_run)
  finally show ?thesis using True by simp
qed

lemma length_after_exp:
  assumes "exp_mark s"
  shows "length (after_frac s) = 1 + length (exp_sign s) + length (exp_part s) + length (after_exp s)"
proof -
  let ?r = "tl (after_frac s)"
  from assms have "after_frac s \<noteq> []" by (auto simp add: exp_mark_def has_prefix_Cons)
  then have 1: "length (after_frac s) = 1 + length ?r" by (cases "after_frac s") simp_all
  have "length (exp_sign s) \<le> length ?r"
    by (cases ?r) (auto simp add: length_exp_sign has_prefix_def)
  then have 2: "length ?r = length (exp_sign s) + length (drop (length (exp_sign s)) ?r)" by simp
  have 3: "length (drop (length (exp_sign s)) ?r) = length (exp_part s) + length (after_exp s)"
    unfolding exp_part_def after_exp_def if_P [OF assms] by (rule length_run)
  from 1 2 3 show ?thesis by linarith
qed

lemma from_chars_double_parts:
  "from_chars_double cvt s =
     float_result cvt (has_prefix ''-'' s) (map lower (body s)) (int_part s = [] \<and> frac_part s = [])
       (length (body s) - length (if exp_part s = [] then after_frac s else after_exp s))
       (significand s) (exponent s)"
proof -
  define b where "b = body s"
  define ip where "ip = takeWhile is_digit b"
  define r1 where "r1 = drop (length ip) b"
  define dot where "dot = has_prefix ''.'' r1"
  define fp where "fp = (if dot then takeWhile is_digit (tl r1) else [])"
  define mlen where "mlen = length ip + (if dot then 1 + length fp else 0)"
  define r2 where "r2 = drop mlen b"
  define emark where "emark = (has_prefix ''e'' r2 \<or> has_prefix ''E'' r2)"
  define r3 where "r3 = tl r2"
  define eneg where "eneg = has_prefix ''-'' r3"
  define esgn where "esgn = (eneg \<or> has_prefix ''+'' r3)"
  define ed where "ed = takeWhile is_digit (if esgn then tl r3 else r3)"
  define hasexp where "hasexp = (emark \<and> ed \<noteq> [])"
  define elen where "elen = (if hasexp then 1 + (if esgn then 1 else 0) + length ed else 0)"
  define ex where "ex = (if hasexp then (if eneg then - int (decimal 0 ed) else int (decimal 0 ed)) else 0)"
  have unfold: "from_chars_double cvt s =
      float_result cvt (has_prefix ''-'' s) (map lower b) (ip = [] \<and> fp = []) (mlen + elen)
        (decimal 0 (ip @ fp)) (ex - int (length fp))"
    unfolding from_chars_double_def Let_def ex_def elen_def hasexp_def ed_def esgn_def eneg_def
      r3_def emark_def r2_def mlen_def fp_def dot_def r1_def ip_def b_def body_def ..
  have ip: "ip = int_part s" by (simp add: ip_def int_part_def b_def)
  have r1: "r1 = after_int s"
    by (simp add: r1_def ip_def after_int_def b_def dropWhile_eq_drop)
  have dot: "dot = point s" by (simp add: dot_def point_def r1)
  have fp: "fp = frac_part s" by (simp add: fp_def frac_part_def dot r1)
  have r2: "r2 = after_frac s"
  proof (cases dot)
    case False
    then show ?thesis
      by (simp add: r2_def mlen_def after_frac_def dot [symmetric] r1 [symmetric] r1_def)
  next
    case True
    have "tl r1 = drop (Suc (length ip)) b" by (simp add: r1_def drop_Suc tl_drop)
    with True have "r2 = drop (length fp) (tl r1)"
      by (simp add: r2_def mlen_def add.commute)
    with True show ?thesis
      by (simp add: after_frac_def dot [symmetric] r1 [symmetric] fp_def dropWhile_eq_drop)
  qed
  have emark: "emark = exp_mark s" by (simp add: emark_def exp_mark_def r2)
  have sgn: "(if esgn then tl r3 else r3) = drop (length (exp_sign s)) (tl (after_frac s))"
    by (auto simp add: esgn_def eneg_def r3_def r2 length_exp_sign drop_Suc)
  have hasexp: "hasexp \<longleftrightarrow> exp_part s \<noteq> []"
    by (simp add: hasexp_def exp_part_def emark ed_def sgn)
  have ed: "hasexp \<Longrightarrow> ed = exp_part s"
    by (simp add: hasexp_def exp_part_def emark ed_def sgn)
  have eneg: "hasexp \<Longrightarrow> eneg \<longleftrightarrow> exp_sign s = ''-''"
    by (auto simp add: eneg_def r3_def r2 exp_sign_def has_prefix_def)
  have ex: "ex - int (length fp) = exponent s"
    using hasexp ed eneg by (auto simp add: ex_def exponent_def fp)
  have mlen: "mlen = length b - length (after_frac s)"
    using length_after_int [of s] length_after_frac [of s]
    by (auto simp add: mlen_def ip fp dot b_def)
  have len: "mlen + elen = length b - length (if exp_part s = [] then after_frac s else after_exp s)"
  proof (cases hasexp)
    case False
    with hasexp show ?thesis by (simp add: elen_def mlen)
  next
    case True
    then have "exp_mark s" by (simp add: hasexp_def emark)
    from length_after_exp [OF this] length_after_int [of s] length_after_frac [of s] True hasexp
    show ?thesis
      by (auto simp add: elen_def mlen ed b_def length_exp_sign esgn_def eneg_def r3_def r2)
  qed
  show ?thesis unfolding unfold len ex by (simp add: ip fp significand_def b_def)
qed

lemma digit_lower: "is_digit c \<Longrightarrow> lower c = c"
  by (auto simp add: is_digit_def lower_def less_eq_char_def)

lemma digit_no_name:
  assumes "low \<noteq> []" and "is_digit (hd low)"
  shows "\<not> has_prefix ''infinity'' low" and "\<not> has_prefix ''inf'' low" and "\<not> has_prefix ''nan'' low"
  using assms by (cases low; auto simp add: has_prefix_def is_digit_def less_eq_char_def)+

lemma float_result_digits:
  assumes "low \<noteq> []" and "is_digit (hd low)"
  shows "float_result cvt neg low False len m e =
     (case cvt neg m e of
        None \<Rightarrow> \<lparr>ptr = (if neg then 1 else 0) + len, ec = result_out_of_range, written = None\<rparr>
      | Some d \<Rightarrow> \<lparr>ptr = (if neg then 1 else 0) + len, ec = errc_none, written = Some d\<rparr>)"
  unfolding float_result_def Let_def using digit_no_name [OF assms] by simp

lemma int_part_body:
  assumes "int_part s \<noteq> []"
  shows "map lower (body s) \<noteq> []" and "is_digit (hd (map lower (body s)))"
proof -
  from assms obtain c cs where b: "body s = c # cs" and c: "is_digit c"
    by (cases "body s") (auto simp add: int_part_def split: if_splits)
  from b show "map lower (body s) \<noteq> []" by simp
  from b c show "is_digit (hd (map lower (body s)))" by (simp add: digit_lower)
qed

lemma tail_empty:
  "(if exp_part s = [] then after_frac s else after_exp s) = [] \<longleftrightarrow>
   (exp_mark s \<longrightarrow> exp_part s \<noteq> []) \<and> after_exp s = []"
  by (auto simp add: after_exp_def exp_mark_def has_prefix_def exp_part_def)

lemma length_tail:
  "length (if exp_part s = [] then after_frac s else after_exp s) \<le> length (body s)"
proof -
  have a: "length (after_frac s) \<le> length (body s)"
    using length_after_int [of s] length_after_frac [of s] by linarith
  have "exp_part s \<noteq> [] \<Longrightarrow> exp_mark s" by (auto simp add: exp_part_def split: if_splits)
  then have "exp_part s \<noteq> [] \<Longrightarrow> length (after_exp s) \<le> length (after_frac s)"
    using length_after_exp [of s] by fastforce
  with a show ?thesis by auto
qed

lemma consumed_all:
  "(if has_prefix ''-'' s then 1 else 0) +
     (length (body s) - length (if exp_part s = [] then after_frac s else after_exp s)) = length s
   \<longleftrightarrow> (exp_mark s \<longrightarrow> exp_part s \<noteq> []) \<and> after_exp s = []"
proof -
  let ?t = "if exp_part s = [] then after_frac s else after_exp s"
  define k where "k = length ?t"
  define g :: nat where "g = (if has_prefix ''-'' s then 1 else 0)"
  have "k \<le> length (body s)" unfolding k_def by (rule length_tail)
  moreover have "length s = g + length (body s)" unfolding g_def by (rule length_body)
  ultimately have "g + (length (body s) - k) = length s \<longleftrightarrow> k = 0" by linarith
  also have "\<dots> \<longleftrightarrow> ?t = []" unfolding k_def by (rule length_0_conv)
  finally show ?thesis unfolding tail_empty g_def k_def .
qed

lemma parseFloat_parts:
  assumes "int_part s \<noteq> []"
  shows "parseFloat cvt s =
     (case cvt (has_prefix ''-'' s) (significand s) (exponent s) of
        None \<Rightarrow> Inr (False, None)
      | Some d \<Rightarrow> Inr (number_opt_frac s \<and> \<not> isinf d \<and> \<not> isnan d, Some d))"
proof -
  from assms have nd: "(int_part s = [] \<and> frac_part s = []) = False" by simp
  note fr = float_result_digits [OF int_part_body [OF assms]]
  show ?thesis
  proof (cases "cvt (has_prefix ''-'' s) (significand s) (exponent s)")
    case None
    then show ?thesis
      unfolding parseFloat_def Let_def from_chars_double_parts nd fr by simp
  next
    case (Some d)
    then show ?thesis
      unfolding parseFloat_def Let_def from_chars_double_parts nd fr
      using assms by (simp add: consumed_all number_opt_frac_def)
  qed
qed

lemma int_part_nonempty: "int_part s \<noteq> [] \<Longrightarrow> s \<noteq> []"
  by (auto simp add: int_part_def body_def has_prefix_def)

lemma strict_parse_parts:
  assumes "int_part s \<noteq> []"
  shows "strict_parse cvt v s =
     (if integer_text s \<and> in_int64 (int_value s)
      then Returned True (Int64 (word_of_int (int_value s)))
      else (case cvt (has_prefix ''-'' s) (significand s) (exponent s) of
              None \<Rightarrow> Returned False v
            | Some d \<Rightarrow> if number_opt_frac s \<and> \<not> isinf d \<and> \<not> isnan d
                        then Returned True (Double d) else Returned False v))"
proof (cases "integer_text s \<and> in_int64 (int_value s)")
  case True
  then have "parseInt s = (True, Some (word_of_int (int_value s)))"
    by (simp add: parseInt_integer)
  with True show ?thesis by (simp add: strict_parse_int)
next
  case False
  with parseInt_fst [OF int_part_nonempty [OF assms]] have n: "\<not> fst (parseInt s)" by simp
  show ?thesis
  proof (cases "cvt (has_prefix ''-'' s) (significand s) (exponent s)")
    case None
    with parseFloat_parts [OF assms, of cvt] have "parseFloat cvt s = Inr (False, None)" by simp
    from strict_parse_fail [OF n this] None False show ?thesis by simp
  next
    case (Some d)
    with parseFloat_parts [OF assms, of cvt]
    have p: "parseFloat cvt s = Inr (number_opt_frac s \<and> \<not> isinf d \<and> \<not> isnan d, Some d)" by simp
    show ?thesis
    proof (cases "number_opt_frac s \<and> \<not> isinf d \<and> \<not> isnan d")
      case True
      with p have "parseFloat cvt s = Inr (True, Some d)" by simp
      from strict_parse_double [OF n this] True Some False show ?thesis by simp
    next
      case f: False
      with p have "parseFloat cvt s = Inr (False, Some d)" by simp
      from strict_parse_fail [OF n this] f Some False show ?thesis by simp
    qed
  qed
qed

lemma integer_text_parts:
  assumes "integer_text s"
  shows "number_opt_frac s" and "significand s = nat \<bar>int_value s\<bar>" and "exponent s = 0"
proof -
  from assms show "number_opt_frac s" by (simp add: integer_spec_number spec_number_opt_frac)
  from assms have a: "after_int s = []" by (simp add: integer_text_def)
  then have p: "\<not> point s" by (simp add: point_def has_prefix_def)
  then have f: "frac_part s = []" by (simp add: frac_part_def)
  from a p have "\<not> exp_mark s" by (simp add: exp_mark_def after_frac_def has_prefix_def)
  then have e: "exp_part s = []" by (simp add: exp_part_def)
  from f show "significand s = nat \<bar>int_value s\<bar>"
    by (simp add: significand_def integer_text_value [OF assms])
  from f e show "exponent s = 0" by (simp add: exponent_def)
qed

lemma parseFloat_iff:
  assumes "int_part s \<noteq> []"
  shows "parseFloat cvt s = Inr (True, Some d) \<longleftrightarrow>
         number_opt_frac s \<and> cvt (has_prefix ''-'' s) (significand s) (exponent s) = Some d \<and>
         \<not> isinf d \<and> \<not> isnan d"
  unfolding parseFloat_parts [OF assms] by (auto split: option.splits)

lemma out_of_range_sign:
  assumes "integer_text s" and "\<not> in_int64 (int_value s)"
  shows "has_prefix ''-'' s \<longleftrightarrow> int_value s < 0"
  using assms(2) unfolding integer_text_value [OF assms(1)] by (auto simp add: in_int64_def)

lemma strict_parse_True_number:
  assumes "int_part s \<noteq> []" and "strict_parse cvt v s = Returned True v'"
  shows "number_opt_frac s"
proof (cases "integer_text s")
  case True
  then show ?thesis by (simp add: integer_spec_number spec_number_opt_frac)
next
  case False
  with assms(2) show ?thesis
    unfolding strict_parse_parts [OF assms(1)] by (simp split: option.splits if_splits)
qed

subsection \<open>The positions of the scan in the text of the span\<close>

text \<open>
  The positions \<open>start\<close>, \<open>int_end\<close>, \<open>frac_end\<close>, \<open>exp_start\<close> and \<open>scan_end\<close>
  cut the text of the span where the parts of the grammar end, and the numeral text
  keeps the integer digits of the span.
\<close>

lemma rest_bytes: "rest m n i = drop i (bytes m n)"
  by (simp add: rest_def bytes_def drop_map)

lemma cur_bytes: "c \<noteq> NUL \<Longrightarrow> cur m n i = c \<longleftrightarrow> has_prefix [c] (drop i (bytes m n))"
  unfolding has_prefix_Cons rest_bytes [symmetric]
  by (cases "i < n") (auto simp add: cur_def rest_Cons rest_Nil)

lemma run_end_bytes:
  "drop (run_end P m n i) (bytes m n) = dropWhile P (drop i (bytes m n))"
  by (simp add: run_end_def rest_bytes dropWhile_eq_drop add.commute)

lemma minus_bytes: "cur m n 0 = CHR ''-'' \<longleftrightarrow> has_prefix ''-'' (bytes m n)"
  using cur_bytes [of "CHR ''-''" m n 0] by (simp add: NUL_def)

lemma start_bytes: "drop (start m n) (bytes m n) = body (bytes m n)"
  by (simp add: start_def minus_bytes body_def drop_Suc)

lemma digit_run_bytes: "digit_run m n = int_part (bytes m n)"
proof -
  have "digit_run m n = takeWhile is_digit (rest m n (start m n))"
    by (simp add: digit_run_def start_def cur_minus)
  then show ?thesis by (simp add: rest_bytes start_bytes int_part_def)
qed

lemma int_end_bytes: "drop (int_end m n) (bytes m n) = after_int (bytes m n)"
  by (simp add: int_end_def run_end_bytes start_bytes after_int_def)

lemma point_bytes: "cur m n (int_end m n) = CHR ''.'' \<longleftrightarrow> point (bytes m n)"
  using cur_bytes [of "CHR ''.''" m n "int_end m n"] by (simp add: NUL_def int_end_bytes point_def)

lemma drop_Suc_tl: "drop (Suc k) xs = tl (drop k xs)"
  by (simp add: drop_Suc tl_drop)

lemma frac_end_bytes: "drop (frac_end m n) (bytes m n) = after_frac (bytes m n)"
  by (simp add: frac_end_def point_bytes run_end_bytes drop_Suc_tl int_end_bytes after_frac_def)

lemma exp_mark_bytes:
  "cur m n (frac_end m n) = CHR ''e'' \<or> cur m n (frac_end m n) = CHR ''E'' \<longleftrightarrow> exp_mark (bytes m n)"
  using cur_bytes [of "CHR ''e''" m n "frac_end m n"] cur_bytes [of "CHR ''E''" m n "frac_end m n"]
  by (simp add: NUL_def frac_end_bytes exp_mark_def)

lemma exp_start_bytes:
  "drop (exp_start m n) (bytes m n) =
     drop (length (exp_sign (bytes m n))) (tl (after_frac (bytes m n)))"
proof -
  have t: "drop (Suc (frac_end m n)) (bytes m n) = tl (after_frac (bytes m n))"
    by (simp only: drop_Suc_tl frac_end_bytes)
  have "cur m n (Suc (frac_end m n)) = CHR ''-'' \<or> cur m n (Suc (frac_end m n)) = CHR ''+'' \<longleftrightarrow>
        has_prefix ''-'' (tl (after_frac (bytes m n))) \<or> has_prefix ''+'' (tl (after_frac (bytes m n)))"
    using cur_bytes [of "CHR ''-''" m n "Suc (frac_end m n)"]
      cur_bytes [of "CHR ''+''" m n "Suc (frac_end m n)"]
    by (simp add: NUL_def t)
  then show ?thesis
    unfolding exp_start_def
    by (simp add: length_exp_sign t drop_Suc_tl [of "Suc (frac_end m n)"] drop_Suc [of 0])
qed

lemma scan_end_bytes: "drop (scan_end m n) (bytes m n) = after_exp (bytes m n)"
  unfolding scan_end_def exp_mark_bytes
  by (simp add: run_end_bytes exp_start_bytes frac_end_bytes after_exp_def)

lemma int_end_digit_run: "int_end m n = start m n + length (digit_run m n)"
  by (simp add: int_end_def run_end_def digit_run_def start_def cur_minus)

lemma numeral_int_part:
  assumes "digit_run m n \<noteq> []"
  shows "int_part (bytes m (scan_end m n)) = digit_run m n"
proof -
  let ?k = "scan_end m n"
  have kn: "?k \<le> n" by (rule scan_end_le)
  have ie: "int_end m n \<le> ?k" using int_end_le [of m n] frac_end_le [of m n] by simp
  from assms have "0 < length (digit_run m n)" by simp
  with ie have k0: "0 < ?k" and sk: "start m n \<le> ?k" unfolding int_end_digit_run by linarith+
  from k0 kn have st: "start m ?k = start m n" by (auto simp add: start_def cur_minus)
  have "digit_run m ?k = takeWhile is_digit (rest m ?k (start m ?k))"
    by (simp add: digit_run_def start_def cur_minus)
  also have "\<dots> = takeWhile is_digit (rest m n (start m n))"
    unfolding st using sk kn ie [unfolded int_end_def] by (rule takeWhile_rest_prefix)
  also have "\<dots> = digit_run m n" by (simp add: digit_run_def start_def cur_minus)
  finally show ?thesis by (simp add: digit_run_bytes)
qed

lemma bytes_take: "k \<le> n \<Longrightarrow> bytes m k = take k (bytes m n)"
  by (simp add: bytes_def take_map)

lemma numeral_text_split: "bytes m n = bytes m (scan_end m n) @ after_exp (bytes m n)"
  unfolding bytes_take [OF scan_end_le] scan_end_bytes [symmetric] by simp

subsection \<open>The recognizer on the texts of the grammar\<close>

text \<open>
  The call on a span that is exactly a text with nothing left after the exponent, what
  a call that returns true has scanned, and the call on a span with no white space and
  no zero byte.
\<close>

lemma scan_whole:
  assumes "after_exp s = []"
  shows "scan (span s b) (length s) =
           Some (cursor (span s b) (length s) (length s), counter (int_part s), Suc (length s))"
proof -
  let ?m = "span s b" and ?n = "length s"
  from scan_end_bytes [of ?m ?n] assms have "drop (scan_end ?m ?n) s = []"
    by (simp add: bytes_span)
  with scan_end_le [of ?m ?n] have e: "scan_end ?m ?n = ?n" by simp
  then have w: "white_end ?m ?n = ?n" by (simp add: white_end_def run_end_def rest_Nil)
  show ?thesis unfolding scan_exact e w digit_run_bytes bytes_span ..
qed

lemma finish_end:
  "finish cvt v (cursor m n n) lz (Suc k) =
     (if lz \<noteq> 0 then Returned False v else strict_parse cvt v (bytes m k))"
  by (simp add: finish_def cursor_def cur_def NUL_less)

lemma try_number:
  assumes "number_opt_frac s"
  shows "tryParseNumber cvt v (span s b) (length s) stop =
     Some (if counter (int_part s) \<noteq> 0 then Returned False v
           else if integer_text s \<and> in_int64 (int_value s)
             then Returned True (Int64 (word_of_int (int_value s)))
           else (case cvt (has_prefix ''-'' s) (significand s) (exponent s) of
                   None \<Rightarrow> Returned False v
                 | Some d \<Rightarrow> if \<not> isinf d \<and> \<not> isnan d then Returned True (Double d)
                             else Returned False v))"
proof -
  from assms have a: "after_exp s = []" and i: "int_part s \<noteq> []"
    by (simp_all add: number_opt_frac_def)
  have c: "ch (cursor (span s b) (length s) (length s)) = NUL" by (simp add: cursor_def cur_def)
  show ?thesis
    unfolding try_scan [OF scan_whole [OF a]] stop_at_next_NUL [OF c] if_cancel finish_end
      bytes_span strict_parse_parts [OF i]
    using assms by (simp split: option.splits)
qed

lemma try_True_scan:
  assumes "tryParseNumber cvt v m n stop = Some (Returned True v')"
  shows "counter (digit_run m n) = 0"
    and "ch (if stop then stop_at_next (cursor m n (white_end m n)) else cursor m n (white_end m n)) = NUL"
    and "strict_parse cvt v (bytes m (scan_end m n)) = Returned True v'"
proof -
  let ?p = "if stop then stop_at_next (cursor m n (white_end m n)) else cursor m n (white_end m n)"
  from assms have f: "finish cvt v ?p (counter (digit_run m n)) (Suc (scan_end m n)) = Returned True v'"
    unfolding try_scan [OF scan_exact] by simp
  then show "counter (digit_run m n) = 0" and "ch ?p = NUL"
    by (auto simp add: finish_def NUL_less split: if_splits)
  have "data ?p = m" by (simp add: data_stop_at_next data_cursor)
  with f show "strict_parse cvt v (bytes m (scan_end m n)) = Returned True v'"
    by (auto simp add: finish_def split: if_splits)
qed

lemma try_True_number:
  assumes "tryParseNumber cvt v m n stop = Some (Returned True v')"
  shows "number_opt_frac (bytes m (scan_end m n))"
    and "counter (int_part (bytes m (scan_end m n))) = 0"
proof -
  note t = try_True_scan [OF assms]
  from t(1) counter_Nil have d: "digit_run m n \<noteq> []" by auto
  note ip = numeral_int_part [OF d]
  from d have "int_part (bytes m (scan_end m n)) \<noteq> []" by (simp add: ip)
  from this t(3) show "number_opt_frac (bytes m (scan_end m n))"
    by (rule strict_parse_True_number)
  from t(1) show "counter (int_part (bytes m (scan_end m n))) = 0" by (simp add: ip)
qed

lemma above_space: "CHR '' '' < c \<Longrightarrow> c \<noteq> NUL \<and> \<not> is_white c"
  by (auto simp add: is_white_def NUL_def less_char_def less_eq_char_def)

lemma plain_scan_end:
  assumes p: "list_all (\<lambda>c. CHR '' '' < c) s"
    and c: "cur (span s b) (length s) (white_end (span s b) (length s)) = NUL"
  shows "scan_end (span s b) (length s) = length s"
proof -
  let ?m = "span s b" and ?n = "length s"
  have byte: "?m i \<noteq> NUL \<and> \<not> is_white (?m i)" if "i < ?n" for i
  proof -
    from that have "?m i \<in> set s" by (simp add: span_def)
    with p have "CHR '' '' < ?m i" by (simp add: list_all_iff)
    then show ?thesis by (rule above_space)
  qed
  have w: "white_end ?m ?n = ?n"
  proof (rule ccontr)
    assume "white_end ?m ?n \<noteq> ?n"
    with white_end_le [of ?m ?n] have "white_end ?m ?n < ?n" by simp
    with c byte show False by (simp add: cur_def)
  qed
  show ?thesis
  proof (rule ccontr)
    assume "scan_end ?m ?n \<noteq> ?n"
    with scan_end_le [of ?m ?n] have lt: "scan_end ?m ?n < ?n" by simp
    with byte have "\<not> is_white (cur ?m ?n (scan_end ?m ?n))" by (simp add: cur_def)
    with lt have "run_end is_white ?m ?n (scan_end ?m ?n) = scan_end ?m ?n"
      by (simp add: run_end_stop NUL_not_white)
    with w lt show False by (simp add: white_end_def)
  qed
qed

lemma try_plain:
  assumes "list_all (\<lambda>c. CHR '' '' < c) s"
  shows "(\<exists>v'. tryParseNumber cvt v (span s b) (length s) False = Some (Returned True v')) \<longleftrightarrow>
         number_opt_frac s \<and> counter (int_part s) = 0 \<and>
         (integer_text s \<and> in_int64 (int_value s) \<or>
          (\<exists>d. cvt (has_prefix ''-'' s) (significand s) (exponent s) = Some d \<and>
               \<not> isinf d \<and> \<not> isnan d))"
    (is "?L \<longleftrightarrow> ?R")
proof
  assume ?R
  then have n: "number_opt_frac s" by simp
  from \<open>?R\<close> show ?L unfolding try_number [OF n] by auto
next
  assume ?L
  then obtain v' where t: "tryParseNumber cvt v (span s b) (length s) False = Some (Returned True v')" ..
  from try_True_scan(2) [OF t]
  have "cur (span s b) (length s) (white_end (span s b) (length s)) = NUL"
    by (simp add: ch_cursor)
  with assms have e: "scan_end (span s b) (length s) = length s" by (rule plain_scan_end)
  from try_True_number [OF t] have n: "number_opt_frac s" and c: "counter (int_part s) = 0"
    unfolding e bytes_span by simp_all
  from t c show ?R unfolding try_number [OF n] using n
    by (auto split: if_splits option.splits)
qed

subsection \<open>Further examples\<close>

lemma bytes_span_Suc: "bytes (span s b) (Suc (length s) - 1) = s"
  by (simp add: bytes_span)

lemma scan_min: "scan (span ''-9223372036854775808'' b) (length ''-9223372036854775808'') =
    Some (cursor (span ''-9223372036854775808'' b) (length ''-9223372036854775808'')
            (length ''-9223372036854775808''), 0, Suc (length ''-9223372036854775808''))"
  by (simp add: scan_eval)

lemma integer_text_min: "integer_text ''-9223372036854775808''"
  by (simp add: integer_text_def int_part_def after_int_def body_def has_prefix_def is_digit_def)

lemma int_value_min: "int_value ''-9223372036854775808'' = - 9223372036854775808"
  by (simp add: int_value_def has_prefix_def)

lemma integer_text_2p63: "integer_text ''9223372036854775808''"
  by (simp add: integer_text_def int_part_def after_int_def body_def has_prefix_def is_digit_def)

lemma integer_text_12: "integer_text ''12''"
  by (simp add: integer_text_def int_part_def after_int_def body_def has_prefix_def is_digit_def)

lemma int_value_12: "int_value ''12'' = 12"
  by (simp add: int_value_def has_prefix_def)

lemma comma_cleared:
  "ch (if True then stop_at_next (cursor (span ''12 ,'' b) (length ''12 ,'') 3)
       else cursor (span ''12 ,'' b) (length ''12 ,'') 3) = NUL"
  by (simp add: stop_at_next_def cursor_def cur_def span_def)

lemma bytes_12': "bytes (span ''12 ,'' b) (3 - 1) = ''12''"
  by (simp add: bytes_def span_def upt_rec)

lemma e_parts: "\<not> integer_text ''1e''" "\<not> number_opt_frac ''1e''"
  by (simp_all add: integer_text_def number_opt_frac_def int_part_def after_int_def point_def
      frac_part_def after_frac_def exp_mark_def exp_sign_def exp_part_def after_exp_def body_def
      has_prefix_def is_digit_def)

lemmas number_eval =
  spec_number_def number_opt_frac_def integer_text_def int_part_def after_int_def point_def
  frac_part_def after_frac_def exp_mark_def exp_sign_def exp_part_def after_exp_def body_def
  has_prefix_def is_digit_def significand_def exponent_def

lemma binary64_one: "binary64 False 1 0 = Some (Finite False 4503599627370496 (- 52))"
proof -
  have "binary64 False 1 0 =
     (if (1::nat) = 0 then Some (Finite False 0 0)
      else if (4503599627370496::nat) = 0 then None
      else if (4503599627370496::nat) = 2 ^ 53
        then (if 971 < (- 52::int) + 1 then None else Some (Finite False (2 ^ 52) (- 52 + 1)))
      else if 971 < (- 52::int) then None
      else Some (Finite False 4503599627370496 (- 52)))"
  proof (rule binary64_staged [where num = 1 and den = 1 and ?k0.0 = "- 53" and ?k1.0 = "- 52"])
    show "(1::nat) = (if 0 \<le> (0::int) then 1 * 10 ^ nat 0 else 1)" by simp
    show "(1::nat) = (if 0 \<le> (0::int) then 1 else 10 ^ nat (- 0))" by simp
    show "(- 53::int) = int (bitlen 1) - int (bitlen 1) - 53"
      by (simp add: bitlen_numeral del: bitlen.simps)
    show "(- 52::int) = (if 2 ^ 53 \<le> fst (scaled 1 1 (- 53)) div snd (scaled 1 1 (- 53))
                          then - 53 + 1 else - 53)" by (simp add: scaled_def)
    show "(- 52::int) = max (- 52) (- 1074)" by simp
    show "(4503599627370496::nat) = nearest (scaled 1 1 (- 52))"
      by (simp add: scaled_def nearest_def)
  qed
  then show ?thesis by simp
qed

lemma one_point_parts:
  "number_opt_frac ''1.''" "\<not> spec_number ''1.''" "\<not> integer_text ''1.''"
  "counter (int_part ''1.'') = 0" "has_prefix ''-'' ''1.'' = False"
  "significand ''1.'' = 1" "exponent ''1.'' = 0"
  by (simp_all add: number_eval counter_def)

lemma boundary_parts:
  "spec_number ''1e10''" "\<not> number_opt_frac ''1e''" "\<not> number_opt_frac ''1.2.3''"
  by (simp_all add: number_eval)

lemma binary64_milli:
  "binary64 True 15 (- 4) = Some (Finite True 6917529027641082 (- 62))"
proof -
  have "binary64 True 15 (- 4) =
     (if (15::nat) = 0 then Some (Finite True 0 0)
      else if (6917529027641082::nat) = 0 then None
      else if (6917529027641082::nat) = 2 ^ 53
        then (if 971 < (- 62::int) + 1 then None else Some (Finite True (2 ^ 52) (- 62 + 1)))
      else if 971 < (- 62::int) then None
      else Some (Finite True 6917529027641082 (- 62)))"
  proof (rule binary64_staged [where num = 15 and den = 10000 and ?k0.0 = "- 63"
        and ?k1.0 = "- 62"])
    show "(15::nat) = (if 0 \<le> (- 4::int) then 15 * 10 ^ nat (- 4) else 15)" by simp
    show "(10000::nat) = (if 0 \<le> (- 4::int) then 1 else 10 ^ nat (- (- 4)))" by simp
    show "(- 63::int) = int (bitlen 15) - int (bitlen 10000) - 53"
      by (simp add: bitlen_numeral del: bitlen.simps)
    show "(- 62::int) = (if 2 ^ 53 \<le> fst (scaled 15 10000 (- 63)) div snd (scaled 15 10000 (- 63))
                          then - 63 + 1 else - 63)" by (simp add: scaled_def)
    show "(- 62::int) = max (- 62) (- 1074)" by simp
    show "(6917529027641082::nat) = nearest (scaled 15 10000 (- 62))"
      by (simp add: scaled_def nearest_def)
  qed
  then show ?thesis by simp
qed

lemma milli_parts:
  "spec_number ''-1.5E-3''" "counter (int_part ''-1.5E-3'') = 0" "\<not> integer_text ''-1.5E-3''"
  "has_prefix ''-'' ''-1.5E-3'' = True" "significand ''-1.5E-3'' = 15" "exponent ''-1.5E-3'' = - 4"
  "list_all (\<lambda>c. CHR '' '' < c) ''-1.5E-3''"
  by (simp_all add: number_eval counter_def less_char_def)

section \<open>Properties of the recognizer\<close>

text \<open>
  C1.  The scan ends with the leading-zero counter of the integer digit run, the digits
  after the optional minus sign: the length of the run less one when the run is all
  zeros, the number of its leading zeros otherwise.  The counter is 0 exactly when the
  run is the single digit 0 or starts with another digit.  With any other counter, that
  is for an empty run and for a run with a leading zero and more digits, the call returns
  false and leaves the value alone; a call that returns true had the counter at 0.
  \<^verbatim>\<open>0\<close> and \<^verbatim>\<open>-0\<close> are the integer 0, \<^verbatim>\<open>0.5\<close> is a Double whenever the library
  rounds \<open>5 * 10 ^ -1\<close> to a finite double, and \<^verbatim>\<open>00\<close> and \<^verbatim>\<open>01\<close> are rejected.
\<close>

theorem leading_zero_check:
  "(\<exists>p e. scan text textSize = Some (p, counter (digit_run text textSize), e)) \<and>
   (counter (digit_run text textSize) = 0 \<longleftrightarrow>
      digit_run text textSize = ''0'' \<or>
      (digit_run text textSize \<noteq> [] \<and> hd (digit_run text textSize) \<noteq> CHR ''0'')) \<and>
   (digit_run text textSize = [] \<or>
    (hd (digit_run text textSize) = CHR ''0'' \<and> 2 \<le> length (digit_run text textSize)) \<longrightarrow>
      tryParseNumber cvt v text textSize stop = Some (Returned False v)) \<and>
   ((\<exists>v'. tryParseNumber cvt v text textSize stop = Some (Returned True v')) \<longrightarrow>
      counter (digit_run text textSize) = 0) \<and>
   tryParseNumber cvt v (span ''0'' b) (length ''0'') stop = Some (Returned True (Int64 0)) \<and>
   tryParseNumber cvt v (span ''-0'' b) (length ''-0'') stop = Some (Returned True (Int64 0)) \<and>
   (cvt False 5 (- 1) = Some d \<and> \<not> isinf d \<and> \<not> isnan d \<longrightarrow>
      tryParseNumber cvt v (span ''0.5'' b) (length ''0.5'') stop =
        Some (Returned True (Double d))) \<and>
   tryParseNumber cvt v (span ''00'' b) (length ''00'') stop = Some (Returned False v) \<and>
   tryParseNumber cvt v (span ''01'' b) (length ''01'') stop = Some (Returned False v)"
proof (intro conjI)
  show "\<exists>p e. scan text textSize = Some (p, counter (digit_run text textSize), e)"
    by (rule scan_counter)
  show "counter (digit_run text textSize) = 0 \<longleftrightarrow>
      digit_run text textSize = ''0'' \<or>
      (digit_run text textSize \<noteq> [] \<and> hd (digit_run text textSize) \<noteq> CHR ''0'')"
    by (rule counter_zero)
  show "digit_run text textSize = [] \<or>
    (hd (digit_run text textSize) = CHR ''0'' \<and> 2 \<le> length (digit_run text textSize)) \<longrightarrow>
      tryParseNumber cvt v text textSize stop = Some (Returned False v)"
    unfolding counter_nonzero [symmetric] by (blast intro: try_counter)
  show "(\<exists>v'. tryParseNumber cvt v text textSize stop = Some (Returned True v')) \<longrightarrow>
      counter (digit_run text textSize) = 0"
    by (blast intro: try_valid_counter)
  show "tryParseNumber cvt v (span ''0'' b) (length ''0'') stop = Some (Returned True (Int64 0))"
    by (rule try_zero)
  show "tryParseNumber cvt v (span ''-0'' b) (length ''-0'') stop = Some (Returned True (Int64 0))"
    by (rule try_minus_zero)
  show "cvt False 5 (- 1) = Some d \<and> \<not> isinf d \<and> \<not> isnan d \<longrightarrow>
      tryParseNumber cvt v (span ''0.5'' b) (length ''0.5'') stop =
        Some (Returned True (Double d))"
    by (blast intro: try_half)
  show "tryParseNumber cvt v (span ''00'' b) (length ''00'') stop = Some (Returned False v)"
    by (rule try_00)
  show "tryParseNumber cvt v (span ''01'' b) (length ''01'') stop = Some (Returned False v)"
    by (rule try_01)
qed

theorem leading_zero_check_witness:
  "digit_run (span ''-010'' (\<lambda>i. NUL)) (length ''-010'') = ''010'' \<and>
   tryParseNumber binary64 (Bool True) (span ''-010'' (\<lambda>i. NUL)) (length ''-010'') True =
     Some (Returned False (Bool True)) \<and>
   binary64 False 5 (- 1) = Some (Finite False 4503599627370496 (- 53)) \<and>
   tryParseNumber binary64 (Bool True) (span ''0.5'' (\<lambda>i. NUL)) (length ''0.5'') True =
     Some (Returned True (Double (Finite False 4503599627370496 (- 53))))"
  using leading_zero_check [of "span ''-010'' (\<lambda>i. NUL)" "length ''-010''" binary64 "Bool True"
      True "\<lambda>i. NUL" "Finite False 4503599627370496 (- 53)"]
  by (simp only: digit_run_010 binary64_half) (simp add: isinf_def isnan_def)

text \<open>
  C2.  Let the scan end with the counter at 0 and the current byte, after the
  stop-at-next test, cleared.  \<^verbatim>\<open>end - 1\<close> is then the position where the numeral
  ends: the numeral text handed to the strict parses is the text of the span without
  what is left of it after the sign, the integer digits, the fraction and the exponent.
  The call returns.  The integer parse succeeds exactly when the numeral text is an
  integer text, an optional minus sign and a non-empty run of digits, whose value lies
  in the signed 64-bit range; the result is then the Int64 of that value, not truncated.
  When the integer parse fails the result is never an Int64: it is the Double of the
  double parse when that one succeeds, and false with the value left alone when it fails
  too.  The double parse succeeds exactly when the numeral text is a text of the number
  grammar with the digits after a decimal point optional, so with a digit after any
  exponent marker, and the library rounds its value to a finite double.  In particular
  an integer text outside the signed 64-bit range gives the Double that the library
  rounds the integer to, whenever that one is finite.
\<close>

theorem int64_before_double:
  assumes "scan text textSize = Some (p, leadingZeros, e)"
    and "ch (if stopAtNext then stop_at_next p else p) = NUL"
    and "leadingZeros = 0"
  shows "e = Suc (scan_end text textSize) \<and> scan_end text textSize \<le> textSize \<and>
     bytes text textSize = bytes text (e - 1) @ after_exp (bytes text textSize) \<and>
     (let s = bytes text (e - 1) in
      \<exists>r. tryParseNumber cvt pValue text textSize stopAtNext = Some r \<and>
        (integer_text s \<longleftrightarrow>
           (\<exists>sg ip. s = sg @ ip \<and> (sg = [] \<or> sg = ''-'') \<and> digits ip)) \<and>
        (fst (parseInt s) \<longleftrightarrow> integer_text s \<and> in_int64 (int_value s)) \<and>
        (fst (parseInt s) \<longrightarrow>
           parseInt s = (True, Some (word_of_int (int_value s))) \<and>
           sint (word_of_int (int_value s) :: 64 word) = int_value s \<and>
           r = Returned True (Int64 (word_of_int (int_value s)))) \<and>
        (\<not> fst (parseInt s) \<longrightarrow>
           (\<forall>i. r \<noteq> Returned True (Int64 i)) \<and>
           (\<forall>d. parseFloat cvt s = Inr (True, Some d) \<longrightarrow> r = Returned True (Double d)) \<and>
           ((\<forall>d. parseFloat cvt s \<noteq> Inr (True, Some d)) \<longrightarrow> r = Returned False pValue)) \<and>
        (\<forall>d. parseFloat cvt s = Inr (True, Some d) \<longleftrightarrow>
             number_opt_frac s \<and>
             cvt (has_prefix ''-'' s) (significand s) (exponent s) = Some d \<and>
             \<not> isinf d \<and> \<not> isnan d) \<and>
        (integer_text s \<and> \<not> in_int64 (int_value s) \<longrightarrow>
           (\<forall>d. cvt (int_value s < 0) (nat \<bar>int_value s\<bar>) 0 = Some d \<and>
                \<not> isinf d \<and> \<not> isnan d \<longrightarrow>
                r = Returned True (Double d))))"
proof -
  from assms(1) have e: "e = Suc (scan_end text textSize)"
    and lz: "leadingZeros = counter (digit_run text textSize)"
    unfolding scan_exact by simp_all
  define s where "s = bytes text (e - 1)"
  define r where "r = strict_parse cvt pValue s"
  from lz assms(3) counter_Nil have "digit_run text textSize \<noteq> []" by auto
  from numeral_int_part [OF this] this have ip: "int_part s \<noteq> []" by (simp add: s_def e)
  then have ne: "s \<noteq> []" by (rule int_part_nonempty)
  have t: "tryParseNumber cvt pValue text textSize stopAtNext = Some r"
    unfolding try_scan [OF assms(1)] finish_accept [OF assms(2,3)]
      scan_numeral_text(1) [OF assms(1,3)] r_def s_def ..
  note c = strict_parse_cases [OF ne, of cvt pValue, folded r_def]
  have 0: "integer_text s \<longleftrightarrow>
           (\<exists>sg ip. s = sg @ ip \<and> (sg = [] \<or> sg = ''-'') \<and> digits ip)"
    by (rule integer_text_grammar)
  have 1: "fst (parseInt s) \<longleftrightarrow> integer_text s \<and> in_int64 (int_value s)"
    using ne by (rule parseInt_fst)
  have 2: "fst (parseInt s) \<longrightarrow>
           parseInt s = (True, Some (word_of_int (int_value s))) \<and>
           sint (word_of_int (int_value s) :: 64 word) = int_value s \<and>
           r = Returned True (Int64 (word_of_int (int_value s)))"
  proof
    assume "fst (parseInt s)"
    with 1 have i: "integer_text s" "in_int64 (int_value s)" by simp_all
    then have p: "parseInt s = (True, Some (word_of_int (int_value s)))" by (rule parseInt_integer)
    from i(2) have "sint (word_of_int (int_value s) :: 64 word) = int_value s"
      by (simp add: in_int64_def sint_int64)
    with p show "parseInt s = (True, Some (word_of_int (int_value s))) \<and>
           sint (word_of_int (int_value s) :: 64 word) = int_value s \<and>
           r = Returned True (Int64 (word_of_int (int_value s)))"
      by (simp add: r_def strict_parse_int)
  qed
  have 3: "\<not> fst (parseInt s) \<longrightarrow>
           (\<forall>i. r \<noteq> Returned True (Int64 i)) \<and>
           (\<forall>d. parseFloat cvt s = Inr (True, Some d) \<longrightarrow> r = Returned True (Double d)) \<and>
           ((\<forall>d. parseFloat cvt s \<noteq> Inr (True, Some d)) \<longrightarrow> r = Returned False pValue)"
    using c by auto
  have 4: "\<forall>d. parseFloat cvt s = Inr (True, Some d) \<longleftrightarrow>
             number_opt_frac s \<and>
             cvt (has_prefix ''-'' s) (significand s) (exponent s) = Some d \<and>
             \<not> isinf d \<and> \<not> isnan d"
    using parseFloat_iff [OF ip] by blast
  have 5: "integer_text s \<and> \<not> in_int64 (int_value s) \<longrightarrow>
           (\<forall>d. cvt (int_value s < 0) (nat \<bar>int_value s\<bar>) 0 = Some d \<and>
                \<not> isinf d \<and> \<not> isnan d \<longrightarrow>
                r = Returned True (Double d))"
  proof (intro impI allI)
    fix d
    assume a: "integer_text s \<and> \<not> in_int64 (int_value s)"
      and d: "cvt (int_value s < 0) (nat \<bar>int_value s\<bar>) 0 = Some d \<and> \<not> isinf d \<and> \<not> isnan d"
    from a have i: "integer_text s" and o: "\<not> in_int64 (int_value s)" by simp_all
    from d have "parseFloat cvt s = Inr (True, Some d)"
      unfolding parseFloat_iff [OF ip] integer_text_parts(2,3) [OF i] out_of_range_sign [OF i o]
      using integer_text_parts(1) [OF i] by simp
    moreover from o 1 have "\<not> fst (parseInt s)" by simp
    ultimately show "r = Returned True (Double d)" using 3 by blast
  qed
  have split: "bytes text textSize = bytes text (e - 1) @ after_exp (bytes text textSize)"
    unfolding e using numeral_text_split [of "text" textSize] by simp
  from t 0 1 2 3 4 5 have "\<exists>r. tryParseNumber cvt pValue text textSize stopAtNext = Some r \<and>
        (integer_text s \<longleftrightarrow>
           (\<exists>sg ip. s = sg @ ip \<and> (sg = [] \<or> sg = ''-'') \<and> digits ip)) \<and>
        (fst (parseInt s) \<longleftrightarrow> integer_text s \<and> in_int64 (int_value s)) \<and>
        (fst (parseInt s) \<longrightarrow>
           parseInt s = (True, Some (word_of_int (int_value s))) \<and>
           sint (word_of_int (int_value s) :: 64 word) = int_value s \<and>
           r = Returned True (Int64 (word_of_int (int_value s)))) \<and>
        (\<not> fst (parseInt s) \<longrightarrow>
           (\<forall>i. r \<noteq> Returned True (Int64 i)) \<and>
           (\<forall>d. parseFloat cvt s = Inr (True, Some d) \<longrightarrow> r = Returned True (Double d)) \<and>
           ((\<forall>d. parseFloat cvt s \<noteq> Inr (True, Some d)) \<longrightarrow> r = Returned False pValue)) \<and>
        (\<forall>d. parseFloat cvt s = Inr (True, Some d) \<longleftrightarrow>
             number_opt_frac s \<and>
             cvt (has_prefix ''-'' s) (significand s) (exponent s) = Some d \<and>
             \<not> isinf d \<and> \<not> isnan d) \<and>
        (integer_text s \<and> \<not> in_int64 (int_value s) \<longrightarrow>
           (\<forall>d. cvt (int_value s < 0) (nat \<bar>int_value s\<bar>) 0 = Some d \<and>
                \<not> isinf d \<and> \<not> isnan d \<longrightarrow>
                r = Returned True (Double d)))"
    by (intro exI [of _ r] conjI)
  with e scan_end_le [of "text" textSize] split show ?thesis
    unfolding Let_def s_def [symmetric] by (intro conjI)
qed

theorem int64_before_double_witness:
  "tryParseNumber binary64 Undefined (span ''-9223372036854775808'' (\<lambda>i. NUL))
       (length ''-9223372036854775808'') False =
     Some (Returned True (Int64 (word_of_int (- 9223372036854775808)))) \<and>
   sint (word_of_int (- 9223372036854775808) :: 64 word) = - 9223372036854775808 \<and>
   tryParseNumber binary64 Undefined (span ''9223372036854775808'' (\<lambda>i. NUL))
       (length ''9223372036854775808'') False =
     Some (Returned True (Double (Finite False 4503599627370496 11))) \<and>
   tryParseNumber binary64 Undefined (span ''12 ,'' (\<lambda>i. NUL)) (length ''12 ,'') True =
     Some (Returned True (Int64 12)) \<and>
   tryParseNumber binary64 (Bool True) (span ''1e'' (\<lambda>i. NUL)) (length ''1e'') False =
     Some (Returned False (Bool True))"
proof (intro conjI)
  let ?S = "''-9223372036854775808''"
  let ?m = "span ?S (\<lambda>i. NUL)"
  have c: "ch (if False then stop_at_next (cursor ?m (length ?S) (length ?S))
               else cursor ?m (length ?S) (length ?S)) = NUL"
    by (simp add: cursor_def cur_def)
  have r: "in_int64 (int_value ?S)" by (simp add: int_value_min in_int64_def)
  from int64_before_double [OF scan_min c refl, of binary64 Undefined, unfolded Let_def bytes_span_Suc]
  obtain r where t: "tryParseNumber binary64 Undefined ?m (length ?S) False = Some r"
    and i: "fst (parseInt ?S) \<longleftrightarrow> integer_text ?S \<and> in_int64 (int_value ?S)"
    and v: "fst (parseInt ?S) \<longrightarrow>
           parseInt ?S = (True, Some (word_of_int (int_value ?S))) \<and>
           sint (word_of_int (int_value ?S) :: 64 word) = int_value ?S \<and>
           r = Returned True (Int64 (word_of_int (int_value ?S)))"
    by blast
  from i integer_text_min r have "fst (parseInt ?S)" by simp
  with v have "sint (word_of_int (int_value ?S) :: 64 word) = int_value ?S"
    and "r = Returned True (Int64 (word_of_int (int_value ?S)))" by simp_all
  with t show "tryParseNumber binary64 Undefined ?m (length ?S) False =
     Some (Returned True (Int64 (word_of_int (- 9223372036854775808))))"
    and "sint (word_of_int (- 9223372036854775808) :: 64 word) = - 9223372036854775808"
    unfolding int_value_min by simp_all
next
  let ?S = "''9223372036854775808''"
  let ?m = "span ?S (\<lambda>i. NUL)"
  have c: "ch (if False then stop_at_next (cursor ?m (length ?S) (length ?S))
               else cursor ?m (length ?S) (length ?S)) = NUL"
    by (simp add: cursor_def cur_def)
  have o: "\<not> in_int64 (int_value ?S)" by (simp add: int_value_2p63 in_int64_def)
  from int64_before_double [OF scan_2p63 c refl, of binary64 Undefined, unfolded Let_def bytes_span_Suc]
  obtain r where t: "tryParseNumber binary64 Undefined ?m (length ?S) False = Some r"
    and d: "integer_text ?S \<and> \<not> in_int64 (int_value ?S) \<longrightarrow>
           (\<forall>d. binary64 (int_value ?S < 0) (nat \<bar>int_value ?S\<bar>) 0 = Some d \<and>
                \<not> isinf d \<and> \<not> isnan d \<longrightarrow> r = Returned True (Double d))"
    by blast
  have "binary64 (int_value ?S < 0) (nat \<bar>int_value ?S\<bar>) 0 =
          Some (Finite False 4503599627370496 11)"
    unfolding int_value_2p63 using binary64_2p63 by simp
  with d integer_text_2p63 o have "r = Returned True (Double (Finite False 4503599627370496 11))"
    by (simp add: isinf_def isnan_def)
  with t show "tryParseNumber binary64 Undefined ?m (length ?S) False =
     Some (Returned True (Double (Finite False 4503599627370496 11)))" by simp
next
  let ?m = "span ''12 ,'' (\<lambda>i. NUL)"
  have r: "in_int64 (int_value ''12'')" by (simp add: int_value_12 in_int64_def)
  from int64_before_double [OF scan_12_comma [of "\<lambda>i. NUL"] comma_cleared refl, of binary64 Undefined,
      unfolded Let_def bytes_12']
  obtain r where t: "tryParseNumber binary64 Undefined ?m (length ''12 ,'') True = Some r"
    and i: "fst (parseInt ''12'') \<longleftrightarrow> integer_text ''12'' \<and> in_int64 (int_value ''12'')"
    and v: "fst (parseInt ''12'') \<longrightarrow>
           parseInt ''12'' = (True, Some (word_of_int (int_value ''12''))) \<and>
           sint (word_of_int (int_value ''12'') :: 64 word) = int_value ''12'' \<and>
           r = Returned True (Int64 (word_of_int (int_value ''12'')))"
    by blast
  from i integer_text_12 r have "fst (parseInt ''12'')" by simp
  with v have "r = Returned True (Int64 (word_of_int (int_value ''12'')))" by simp
  with t show "tryParseNumber binary64 Undefined ?m (length ''12 ,'') True =
     Some (Returned True (Int64 12))"
    unfolding int_value_12 by simp
next
  let ?S = "''1e''"
  let ?m = "span ?S (\<lambda>i. NUL)"
  have c: "ch (if False then stop_at_next (cursor ?m (length ?S) (length ?S))
               else cursor ?m (length ?S) (length ?S)) = NUL"
    by (simp add: cursor_def cur_def)
  from int64_before_double [OF scan_1e c refl, of binary64 "Bool True", unfolded Let_def bytes_span_Suc]
  obtain r where t: "tryParseNumber binary64 (Bool True) ?m (length ?S) False = Some r"
    and i: "fst (parseInt ?S) \<longleftrightarrow> integer_text ?S \<and> in_int64 (int_value ?S)"
    and f: "\<not> fst (parseInt ?S) \<longrightarrow>
           (\<forall>i. r \<noteq> Returned True (Int64 i)) \<and>
           (\<forall>d. parseFloat binary64 ?S = Inr (True, Some d) \<longrightarrow> r = Returned True (Double d)) \<and>
           ((\<forall>d. parseFloat binary64 ?S \<noteq> Inr (True, Some d)) \<longrightarrow> r = Returned False (Bool True))"
    and d: "\<forall>d. parseFloat binary64 ?S = Inr (True, Some d) \<longleftrightarrow>
             number_opt_frac ?S \<and>
             binary64 (has_prefix ''-'' ?S) (significand ?S) (exponent ?S) = Some d \<and>
             \<not> isinf d \<and> \<not> isnan d"
    by blast
  from i e_parts(1) have "\<not> fst (parseInt ?S)" by simp
  moreover from d e_parts(2) have "\<forall>d. parseFloat binary64 ?S \<noteq> Inr (True, Some d)" by simp
  ultimately have "r = Returned False (Bool True)" using f by blast
  with t show "tryParseNumber binary64 (Bool True) ?m (length ?S) False =
     Some (Returned False (Bool True))" by simp
qed

text \<open>
  C3.  Let the scan of the span stop, after the numeral and the white space, on the
  cursor \<open>p\<close>.  When the byte there is one of \<^verbatim>\<open>, } ] #\<close>, or a slash followed inside
  the span by a slash or a star, the call in stop-at-next mode gives what the call gives
  at the end of the input: false with the counter off 0, the outcome of the strict parses
  of the numeral text otherwise, so that it returns true exactly when the counter is 0 and
  one of the two parses succeeds; and it gives what the call gives, in either mode, on
  the span cut before that byte, where the scan runs into the true end of the input.
  Without stop-at-next the same byte makes the call return false.
\<close>

theorem stop_at_next_terminators:
  assumes "scan text textSize = Some (p, leadingZeros, e)"
  shows
    "(terminator p \<or> ch p = NUL \<longrightarrow>
        tryParseNumber cvt pValue text textSize True =
          Some (if leadingZeros \<noteq> 0 then Returned False pValue
                else strict_parse cvt pValue (bytes text (e - 1)))) \<and>
     (ch p = NUL \<longrightarrow>
        tryParseNumber cvt pValue text textSize False =
          Some (if leadingZeros \<noteq> 0 then Returned False pValue
                else strict_parse cvt pValue (bytes text (e - 1)))) \<and>
     (terminator p \<longrightarrow>
        tryParseNumber cvt pValue text textSize False = Some (Returned False pValue)) \<and>
     (terminator p \<longrightarrow>
        ((\<exists>v'. tryParseNumber cvt pValue text textSize True = Some (Returned True v')) \<longleftrightarrow>
         leadingZeros = 0 \<and>
         (fst (parseInt (bytes text (e - 1))) \<or>
          (\<exists>d. parseFloat cvt (bytes text (e - 1)) = Inr (True, Some d))))) \<and>
     (terminator p \<longrightarrow>
        tryParseNumber cvt pValue text textSize True =
          tryParseNumber cvt pValue text (at p - 1) stop)"
proof -
  note d = scan_data(1) [OF assms]
  have eoi: "tryParseNumber cvt pValue text textSize stop =
          Some (if leadingZeros \<noteq> 0 then Returned False pValue
                else strict_parse cvt pValue (bytes text (e - 1)))"
    if "ch p = NUL" for stop
    unfolding try_scan [OF assms] using that
    by (simp add: stop_at_next_NUL finish_def NUL_less d)
  have stop: "tryParseNumber cvt pValue text textSize True =
          Some (if leadingZeros \<noteq> 0 then Returned False pValue
                else strict_parse cvt pValue (bytes text (e - 1)))"
    if "terminator p"
    unfolding try_scan [OF assms] using that
    by (simp add: terminator_stop finish_def NUL_less d)
  have nostop: "tryParseNumber cvt pValue text textSize False = Some (Returned False pValue)"
    if "terminator p"
    unfolding try_scan [OF assms] using terminator_not_NUL [OF that]
    by (simp add: finish_reject)
  have valid: "(\<exists>v'. tryParseNumber cvt pValue text textSize True = Some (Returned True v')) \<longleftrightarrow>
         leadingZeros = 0 \<and>
         (fst (parseInt (bytes text (e - 1))) \<or>
          (\<exists>d. parseFloat cvt (bytes text (e - 1)) = Inr (True, Some d)))"
    if t: "terminator p"
  proof (cases "leadingZeros = 0")
    case False
    then show ?thesis unfolding stop [OF t] by simp
  next
    case True
    from assms True have "bytes text (e - 1) \<noteq> []" by (rule scan_numeral_text(2))
    from strict_parse_valid [OF this, of cvt pValue] True show ?thesis
      unfolding stop [OF t] by simp
  qed
  have cut: "tryParseNumber cvt pValue text textSize True =
          tryParseNumber cvt pValue text (at p - 1) stop"
    if "terminator p"
    using assms that by (rule try_terminator_prefix)
  from eoi stop nostop valid cut show ?thesis by blast
qed

theorem stop_at_next_terminators_witness:
  "scan (span ''12 ,'' (\<lambda>i. NUL)) (length ''12 ,'') =
     Some (cursor (span ''12 ,'' (\<lambda>i. NUL)) (length ''12 ,'') 3, 0, 3) \<and>
   terminator (cursor (span ''12 ,'' (\<lambda>i. NUL)) (length ''12 ,'') 3) \<and>
   tryParseNumber binary64 Null (span ''12 ,'' (\<lambda>i. NUL)) (length ''12 ,'') True =
     Some (Returned True (Int64 12)) \<and>
   tryParseNumber binary64 Null (span ''12 ,'' (\<lambda>i. NUL)) (length ''12 ,'') False =
     Some (Returned False Null)"
proof -
  have t: "terminator (cursor (span ''12 ,'' (\<lambda>i. NUL)) (length ''12 ,'') 3)"
    by (simp add: terminator_def cursor_def cur_def span_def)
  have s: "strict_parse binary64 Null (bytes (span ''12 ,'' (\<lambda>i. NUL)) (3 - 1)) =
             Returned True (Int64 12)"
    by (simp add: bytes_12 strict_parse_int [OF parseInt_12])
  note sc = scan_12_comma [of "\<lambda>i. NUL"]
  from stop_at_next_terminators [OF sc, of binary64 Null] t
  have a: "tryParseNumber binary64 Null (span ''12 ,'' (\<lambda>i. NUL)) (length ''12 ,'') True =
             Some (if (0::int) \<noteq> 0 then Returned False Null
                   else strict_parse binary64 Null (bytes (span ''12 ,'' (\<lambda>i. NUL)) (3 - 1)))"
    and b: "tryParseNumber binary64 Null (span ''12 ,'' (\<lambda>i. NUL)) (length ''12 ,'') False =
             Some (Returned False Null)"
    by blast+
  from a s have "tryParseNumber binary64 Null (span ''12 ,'' (\<lambda>i. NUL)) (length ''12 ,'') True =
     Some (Returned True (Int64 12))" by simp
  with sc t b show ?thesis by blast
qed

text \<open>
  C4.  The recognizer agrees with the number grammar of the spec once the digits after a
  decimal point are optional.  \<open>spec_number\<close> holds exactly of the texts
  \<^verbatim>\<open>'-'? digits ('.' digits)? ([eE] [+-]? digits)?\<close> and \<open>number_opt_frac\<close> exactly
  of the texts \<^verbatim>\<open>'-'? digits ('.' digit*)? ([eE] [+-]? digits)?\<close>; the second form
  contains the first and adds the texts with a decimal point and no digit after it.  A
  call that returns true has scanned a numeral text of the second form whose
  leading-zero counter is 0.  On a span that is exactly a text of the second form the
  call gives false when the counter is not 0, the Int64 of an integer text in the signed
  64-bit range, and otherwise the Double that the library rounds the value to when that
  one is finite, and false when it is not.  On a span with no white space and no zero
  byte, without stop-at-next, the call returns true for exactly these texts.  Of the
  boundary cases, \<^verbatim>\<open>1e10\<close> is a text of the grammar and a Double whenever the library
  rounds \<open>1 * 10 ^ 10\<close> to a finite double; \<^verbatim>\<open>1e\<close> and \<^verbatim>\<open>1.2.3\<close> are of neither
  form and are rejected.  The scan itself takes \<^verbatim>\<open>1e\<close> to the end of the input with
  the counter at 0; it is the two strict parses that fail on it.
\<close>

theorem number_grammar_optional_fraction:
  "(spec_number s \<longleftrightarrow>
      (\<exists>sg ip fr ex. s = sg @ ip @ fr @ ex \<and> (sg = [] \<or> sg = ''-'') \<and> digits ip \<and>
         (fr = [] \<or> (\<exists>f. fr = CHR ''.'' # f \<and> digits f)) \<and>
         (ex = [] \<or> (\<exists>m g d. ex = m # g @ d \<and> (m = CHR ''e'' \<or> m = CHR ''E'') \<and>
                       (g = [] \<or> g = ''+'' \<or> g = ''-'') \<and> digits d)))) \<and>
   (number_opt_frac s \<longleftrightarrow>
      (\<exists>sg ip fr ex. s = sg @ ip @ fr @ ex \<and> (sg = [] \<or> sg = ''-'') \<and> digits ip \<and>
         (fr = [] \<or> (\<exists>f. fr = CHR ''.'' # f \<and> list_all is_digit f)) \<and>
         (ex = [] \<or> (\<exists>m g d. ex = m # g @ d \<and> (m = CHR ''e'' \<or> m = CHR ''E'') \<and>
                       (g = [] \<or> g = ''+'' \<or> g = ''-'') \<and> digits d)))) \<and>
   (spec_number s \<longrightarrow> number_opt_frac s) \<and>
   (number_opt_frac s \<and> \<not> spec_number s \<longleftrightarrow> number_opt_frac s \<and> point s \<and> frac_part s = []) \<and>
   ((\<exists>v'. tryParseNumber cvt v text textSize stop = Some (Returned True v')) \<longrightarrow>
      number_opt_frac (bytes text (scan_end text textSize)) \<and>
      counter (int_part (bytes text (scan_end text textSize))) = 0) \<and>
   (number_opt_frac s \<longrightarrow>
      tryParseNumber cvt v (span s b) (length s) stop =
        Some (if counter (int_part s) \<noteq> 0 then Returned False v
              else if integer_text s \<and> in_int64 (int_value s)
                then Returned True (Int64 (word_of_int (int_value s)))
              else (case cvt (has_prefix ''-'' s) (significand s) (exponent s) of
                      None \<Rightarrow> Returned False v
                    | Some d \<Rightarrow> if \<not> isinf d \<and> \<not> isnan d then Returned True (Double d)
                                else Returned False v))) \<and>
   (list_all (\<lambda>c. CHR '' '' < c) s \<longrightarrow>
      ((\<exists>v'. tryParseNumber cvt v (span s b) (length s) False = Some (Returned True v')) \<longleftrightarrow>
       number_opt_frac s \<and> counter (int_part s) = 0 \<and>
       (integer_text s \<and> in_int64 (int_value s) \<or>
        (\<exists>d. cvt (has_prefix ''-'' s) (significand s) (exponent s) = Some d \<and>
             \<not> isinf d \<and> \<not> isnan d)))) \<and>
   spec_number ''1e10'' \<and> \<not> number_opt_frac ''1e'' \<and> \<not> number_opt_frac ''1.2.3'' \<and>
   tryParseNumber cvt v (span ''1e'' b) (length ''1e'') stop = Some (Returned False v) \<and>
   tryParseNumber cvt v (span ''1.2.3'' b) (length ''1.2.3'') stop = Some (Returned False v) \<and>
   (cvt False 1 10 = Some d \<and> \<not> isinf d \<and> \<not> isnan d \<longrightarrow>
      tryParseNumber cvt v (span ''1e10'' b) (length ''1e10'') stop =
        Some (Returned True (Double d))) \<and>
   (\<exists>p. scan (span ''1e'' b) (length ''1e'') = Some (p, 0, 3) \<and> ch p = NUL) \<and>
   fst (parseInt ''1e'') = False \<and>
   (\<exists>x. parseFloat cvt ''1e'' = Inr (False, x))"
proof (intro conjI)
  show "spec_number s \<longleftrightarrow>
      (\<exists>sg ip fr ex. s = sg @ ip @ fr @ ex \<and> (sg = [] \<or> sg = ''-'') \<and> digits ip \<and>
         (fr = [] \<or> (\<exists>f. fr = CHR ''.'' # f \<and> digits f)) \<and>
         (ex = [] \<or> (\<exists>m g d. ex = m # g @ d \<and> (m = CHR ''e'' \<or> m = CHR ''E'') \<and>
                       (g = [] \<or> g = ''+'' \<or> g = ''-'') \<and> digits d)))"
    by (rule spec_number_grammar)
  show "number_opt_frac s \<longleftrightarrow>
      (\<exists>sg ip fr ex. s = sg @ ip @ fr @ ex \<and> (sg = [] \<or> sg = ''-'') \<and> digits ip \<and>
         (fr = [] \<or> (\<exists>f. fr = CHR ''.'' # f \<and> list_all is_digit f)) \<and>
         (ex = [] \<or> (\<exists>m g d. ex = m # g @ d \<and> (m = CHR ''e'' \<or> m = CHR ''E'') \<and>
                       (g = [] \<or> g = ''+'' \<or> g = ''-'') \<and> digits d)))"
    by (rule number_opt_frac_grammar)
  show "spec_number s \<longrightarrow> number_opt_frac s" by (rule impI, rule spec_number_opt_frac)
  show "number_opt_frac s \<and> \<not> spec_number s \<longleftrightarrow> number_opt_frac s \<and> point s \<and> frac_part s = []"
    by (rule opt_frac_only)
  show "(\<exists>v'. tryParseNumber cvt v text textSize stop = Some (Returned True v')) \<longrightarrow>
      number_opt_frac (bytes text (scan_end text textSize)) \<and>
      counter (int_part (bytes text (scan_end text textSize))) = 0"
    by (blast intro: try_True_number)
  show "number_opt_frac s \<longrightarrow>
      tryParseNumber cvt v (span s b) (length s) stop =
        Some (if counter (int_part s) \<noteq> 0 then Returned False v
              else if integer_text s \<and> in_int64 (int_value s)
                then Returned True (Int64 (word_of_int (int_value s)))
              else (case cvt (has_prefix ''-'' s) (significand s) (exponent s) of
                      None \<Rightarrow> Returned False v
                    | Some d \<Rightarrow> if \<not> isinf d \<and> \<not> isnan d then Returned True (Double d)
                                else Returned False v))"
    by (rule impI, rule try_number)
  show "list_all (\<lambda>c. CHR '' '' < c) s \<longrightarrow>
      ((\<exists>v'. tryParseNumber cvt v (span s b) (length s) False = Some (Returned True v')) \<longleftrightarrow>
       number_opt_frac s \<and> counter (int_part s) = 0 \<and>
       (integer_text s \<and> in_int64 (int_value s) \<or>
        (\<exists>d. cvt (has_prefix ''-'' s) (significand s) (exponent s) = Some d \<and>
             \<not> isinf d \<and> \<not> isnan d)))"
    by (rule impI, rule try_plain)
  show "spec_number ''1e10''" by (rule boundary_parts)
  show "\<not> number_opt_frac ''1e''" by (rule boundary_parts)
  show "\<not> number_opt_frac ''1.2.3''" by (rule boundary_parts)
  show "tryParseNumber cvt v (span ''1e'' b) (length ''1e'') stop = Some (Returned False v)"
    by (rule try_1e)
  show "tryParseNumber cvt v (span ''1.2.3'' b) (length ''1.2.3'') stop = Some (Returned False v)"
    by (rule try_123)
  show "cvt False 1 10 = Some d \<and> \<not> isinf d \<and> \<not> isnan d \<longrightarrow>
      tryParseNumber cvt v (span ''1e10'' b) (length ''1e10'') stop =
        Some (Returned True (Double d))"
    by (blast intro: try_1e10)
  show "\<exists>p. scan (span ''1e'' b) (length ''1e'') = Some (p, 0, 3) \<and> ch p = NUL"
    by (rule scan_1e_accepts)
  show "fst (parseInt ''1e'') = False" by (rule parseInt_1e)
  show "\<exists>x. parseFloat cvt ''1e'' = Inr (False, x)" by (rule parseFloat_1e)
qed

theorem number_grammar_optional_fraction_witness:
  "spec_number ''-1.5E-3'' \<and> number_opt_frac ''-1.5E-3'' \<and>
   list_all (\<lambda>c. CHR '' '' < c) ''-1.5E-3'' \<and>
   binary64 True 15 (- 4) = Some (Finite True 6917529027641082 (- 62)) \<and>
   tryParseNumber binary64 Undefined (span ''-1.5E-3'' (\<lambda>i. NUL)) (length ''-1.5E-3'') False =
     Some (Returned True (Double (Finite True 6917529027641082 (- 62)))) \<and>
   number_opt_frac (bytes (span ''-1.5E-3'' (\<lambda>i. NUL))
     (scan_end (span ''-1.5E-3'' (\<lambda>i. NUL)) (length ''-1.5E-3''))) \<and>
   binary64 False 1 10 = Some (Finite False 5242880000000000 (- 19)) \<and>
   tryParseNumber binary64 Undefined (span ''1e10'' (\<lambda>i. NUL)) (length ''1e10'') False =
     Some (Returned True (Double (Finite False 5242880000000000 (- 19))))"
proof -
  let ?S = "''-1.5E-3''"
  let ?m = "span ?S (\<lambda>i. NUL)"
  let ?d = "Finite True 6917529027641082 (- 62)"
  let ?e = "Finite False 5242880000000000 (- 19)"
  note th = number_grammar_optional_fraction [of ?S binary64 Undefined ?m
      "length ?S" False "\<lambda>i. NUL" ?e]
  note rest = th [THEN conjunct2, THEN conjunct2]
  note sound = rest [THEN conjunct2, THEN conjunct2, THEN conjunct1]
  note complete = rest [THEN conjunct2, THEN conjunct2, THEN conjunct2, THEN conjunct1]
  note plain = rest [THEN conjunct2, THEN conjunct2, THEN conjunct2, THEN conjunct2,
      THEN conjunct1]
  note bcases = rest [THEN conjunct2, THEN conjunct2, THEN conjunct2, THEN conjunct2,
      THEN conjunct2, THEN conjunct2, THEN conjunct2, THEN conjunct2]
  note e10 = bcases [THEN conjunct2, THEN conjunct2, THEN conjunct1]
  from rest [THEN conjunct1] milli_parts(1) have n: "number_opt_frac ?S" by (rule mp)
  have val: "binary64 (has_prefix ''-'' ?S) (significand ?S) (exponent ?S) = Some ?d"
    by (simp only: milli_parts binary64_milli)
  from complete n have "tryParseNumber binary64 Undefined ?m (length ?S) False =
        Some (if counter (int_part ?S) \<noteq> 0 then Returned False Undefined
              else if integer_text ?S \<and> in_int64 (int_value ?S)
                then Returned True (Int64 (word_of_int (int_value ?S)))
              else (case binary64 (has_prefix ''-'' ?S) (significand ?S) (exponent ?S) of
                      None \<Rightarrow> Returned False Undefined
                    | Some d \<Rightarrow> if \<not> isinf d \<and> \<not> isnan d then Returned True (Double d)
                                else Returned False Undefined))"
    by (rule mp)
  then have t: "tryParseNumber binary64 Undefined ?m (length ?S) False =
      Some (Returned True (Double ?d))"
    unfolding val by (simp add: milli_parts isinf_def isnan_def)
  then have "\<exists>v'. tryParseNumber binary64 Undefined ?m (length ?S) False =
      Some (Returned True v')" by (rule exI)
  with sound have s: "number_opt_frac (bytes ?m (scan_end ?m (length ?S)))" by blast
  from plain milli_parts(7)
  have "(\<exists>v'. tryParseNumber binary64 Undefined ?m (length ?S) False = Some (Returned True v')) \<longleftrightarrow>
       number_opt_frac ?S \<and> counter (int_part ?S) = 0 \<and>
       (integer_text ?S \<and> in_int64 (int_value ?S) \<or>
        (\<exists>d. binary64 (has_prefix ''-'' ?S) (significand ?S) (exponent ?S) = Some d \<and>
             \<not> isinf d \<and> \<not> isnan d))"
    by (rule mp)
  have "\<not> isinf ?e \<and> \<not> isnan ?e" by (simp add: isinf_def isnan_def)
  with binary64_1e10 have "binary64 False 1 10 = Some ?e \<and> \<not> isinf ?e \<and> \<not> isnan ?e"
    by (rule conjI)
  with e10
  have "tryParseNumber binary64 Undefined (span ''1e10'' (\<lambda>i. NUL)) (length ''1e10'') False =
     Some (Returned True (Double ?e))" by (rule mp)
  with milli_parts(1,7) n binary64_milli t s binary64_1e10 show ?thesis by (intro conjI)
qed

text \<open>
  C4 as the claim words it, agreement with the grammar of the spec itself, fails on
  \<^verbatim>\<open>1.\<close>: the text is not of the grammar, and the call on it returns true with the
  Double 1.
\<close>

theorem bare_point_accepted:
  "\<not> spec_number ''1.'' \<and>
   tryParseNumber binary64 Undefined (span ''1.'' zeros) (length ''1.'') False =
     Some (Returned True (Double (Finite False 4503599627370496 (- 52))))"
  unfolding try_number [OF one_point_parts(1)]
  by (simp add: one_point_parts binary64_one [unfolded One_nat_def] isinf_def isnan_def)

text \<open>
  C5.  A double that a successful call stores is finite: neither an infinity nor a NaN.
\<close>

theorem stored_double_finite:
  assumes "tryParseNumber cvt pValue text textSize stopAtNext = Some (Returned True (Double d))"
  shows "\<not> isinf d \<and> \<not> isnan d \<and> (\<exists>neg m e. d = Finite neg m e)"
proof -
  from scan_total obtain p lz e where sc: "scan text textSize = Some (p, lz, e)" by blast
  from assms have "\<not> isinf d \<and> \<not> isnan d"
    unfolding try_scan [OF sc] by (auto dest: finish_Double)
  then show ?thesis by (cases d) (simp_all add: isinf_def isnan_def)
qed

theorem stored_double_finite_witness:
  "tryParseNumber binary64 Undefined (span ''0.5'' (\<lambda>i. NUL)) (length ''0.5'') False =
     Some (Returned True (Double (Finite False 4503599627370496 (- 53)))) \<and>
   \<not> isinf (Finite False 4503599627370496 (- 53)) \<and>
   \<not> isnan (Finite False 4503599627370496 (- 53))"
proof -
  have "tryParseNumber binary64 Undefined (span ''0.5'' (\<lambda>i. NUL)) (length ''0.5'') False =
     Some (Returned True (Double (Finite False 4503599627370496 (- 53))))"
  proof (rule try_half)
    show "binary64 False 5 (- 1) = Some (Finite False 4503599627370496 (- 53))"
      by (rule binary64_half)
  qed (simp_all add: isinf_def isnan_def)
  with stored_double_finite [OF this] show ?thesis by simp
qed

text \<open>
  C6.  \<^verbatim>\<open>startsWithNumber\<close> returns, and it returns true exactly when
  \<^verbatim>\<open>tryParseNumber\<close> succeeds on the same span in stop-at-next mode, whatever value
  \<^verbatim>\<open>pValue\<close> holds before the call.
\<close>

theorem startsWithNumber_recognizer:
  "(\<exists>b. startsWithNumber cvt text textSize = Some b) \<and>
   (startsWithNumber cvt text textSize = Some ok \<longleftrightarrow>
      (\<exists>v'. tryParseNumber cvt pValue text textSize True = Some (Returned ok v')))"
proof -
  from no_fault [of cvt Undefined "text" textSize True] obtain b u where
    u: "tryParseNumber cvt Undefined text textSize True = Some (Returned b u)" by blast
  then have s: "startsWithNumber cvt text textSize = Some b"
    by (simp add: startsWithNumber_def)
  have p: "tryParseNumber cvt pValue text textSize True =
             Some (Returned b (if b then u else pValue))"
    using u by (rule try_indep)
  from s p show ?thesis by auto
qed

theorem startsWithNumber_recognizer_witness:
  "startsWithNumber binary64 (span ''10'' (\<lambda>i. NUL)) (length ''10'') = Some True"
  using startsWithNumber_recognizer
    [of binary64 "span ''10'' (\<lambda>i. NUL)" "length ''10''" True Null]
  by (simp only: try_10_True) simp

text \<open>
  C9.  On the two bytes \<^verbatim>\<open>1/\<close> in stop-at-next mode the scan stops on the slash
  with \<open>at\<close> equal to \<open>dataSize\<close>, and line 132 reads \<^verbatim>\<open>p.data[p.at]\<close>: the byte
  after the span.  The verdict follows that byte: with a slash there the call returns
  true with the integer 1, with a NUL there it returns false.
\<close>

theorem lookahead_reads_past_span:
  "(\<exists>p lz e. scan (span ''1/'' b) (length ''1/'') = Some (p, lz, e) \<and>
              ch p = CHR ''/'' \<and> at p = dataSize p) \<and>
   tryParseNumber cvt v (span ''1/'' (\<lambda>i. CHR ''/'')) (length ''1/'') True =
     Some (Returned True (Int64 1)) \<and>
   tryParseNumber cvt v (span ''1/'' (\<lambda>i. NUL)) (length ''1/'') True =
     Some (Returned False v)"
proof (intro conjI)
  show "\<exists>p lz e. scan (span ''1/'' b) (length ''1/'') = Some (p, lz, e) \<and>
              ch p = CHR ''/'' \<and> at p = dataSize p"
    using scan_slash [of b] slash_cursor [of b] by blast
  show "tryParseNumber cvt v (span ''1/'' (\<lambda>i. CHR ''/'')) (length ''1/'') True =
     Some (Returned True (Int64 1))"
    by (rule try_slash_slash)
  show "tryParseNumber cvt v (span ''1/'' (\<lambda>i. NUL)) (length ''1/'') True =
     Some (Returned False v)"
    by (rule try_slash_NUL)
qed

text \<open>
  C10.  Every call returns, and a call that returns false leaves the value behind
  \<^verbatim>\<open>pValue\<close> as it was before the call.
\<close>

theorem failure_keeps_value:
  "\<exists>ok v'. tryParseNumber cvt pValue text textSize stopAtNext = Some (Returned ok v') \<and>
            (\<not> ok \<longrightarrow> v' = pValue)"
proof -
  from no_fault [of cvt pValue "text" textSize stopAtNext] obtain ok v' where
    r: "tryParseNumber cvt pValue text textSize stopAtNext = Some (Returned ok v')" by blast
  from scan_total obtain p lz e where sc: "scan text textSize = Some (p, lz, e)" by blast
  from r have "\<not> ok \<longrightarrow> v' = pValue"
    unfolding try_scan [OF sc] by (auto dest: finish_False)
  with r show ?thesis by blast
qed

theorem failure_keeps_value_witness:
  "\<exists>ok v'. tryParseNumber binary64 (Int64 7) (span ''00'' (\<lambda>i. NUL)) (length ''00'') False =
              Some (Returned ok v') \<and> \<not> ok \<and> v' = Int64 7"
proof -
  from failure_keeps_value [of binary64 "Int64 7" "span ''00'' (\<lambda>i. NUL)" "length ''00''" False]
  obtain ok v' where
    "tryParseNumber binary64 (Int64 7) (span ''00'' (\<lambda>i. NUL)) (length ''00'') False =
       Some (Returned ok v')" and "\<not> ok \<longrightarrow> v' = Int64 7" by blast
  then show ?thesis unfolding try_00_False by auto
qed

section \<open>Properties of Merge and of keyed access\<close>

text \<open>
  C7.  For two Maps, the second with unique keys, \<^verbatim>\<open>Merge\<close> gives a Map in which a key
  that only \<open>base\<close> has holds a clone of the value of \<open>base\<close>; a key that \<open>ext\<close> has
  with a defined value holds that value, merged with the value of \<open>base\<close> under the key
  when both are Maps and cloned otherwise; and a key that \<open>ext\<close> has with an Undefined
  value holds what \<open>base\<close> holds under it, a clone of the value there or nothing, so that
  an Undefined entry never removes a key of \<open>base\<close>.  With an Undefined \<open>ext\<close> the result
  is a clone of \<open>base\<close>.
\<close>

theorem Merge_maps:
  assumes "distinct (map fst em)"
  shows "(\<exists>rm. Merge (Map bm) (Map em) = Map rm \<and>
      (\<forall>k b. map_of bm k = Some b \<and> map_of em k = None \<longrightarrow> map_of rm k = Some (clone b)) \<and>
      (\<forall>k e. map_of em k = Some e \<and> e \<noteq> Undefined \<longrightarrow>
         map_of rm k =
           Some (if (\<exists>x. lookup (Map bm) k = Map x) \<and> (\<exists>y. e = Map y)
                 then Merge (lookup (Map bm) k) e else clone e)) \<and>
      (\<forall>k. map_of em k = Some Undefined \<longrightarrow>
         map_of rm k = map_option clone (map_of bm k))) \<and>
    Merge base Undefined = clone base"
proof -
  from Merge_map_of [OF assms, of bm] obtain rm where
    m: "Merge (Map bm) (Map em) = Map rm"
    and r: "\<And>k. map_of rm k =
        (case map_of bm k of
           Some b \<Rightarrow> Some (case map_of em k of None \<Rightarrow> clone b | Some e \<Rightarrow> Merge b e)
         | None \<Rightarrow> (case map_of em k of
                      None \<Rightarrow> None
                    | Some e \<Rightarrow> if e = Undefined then None else Some (clone e)))"
    by blast
  have 1: "map_of rm k = Some (clone b)" if "map_of bm k = Some b" "map_of em k = None" for k b
    using that by (simp add: r)
  have 2: "map_of rm k =
           Some (if (\<exists>x. lookup (Map bm) k = Map x) \<and> (\<exists>y. e = Map y)
                 then Merge (lookup (Map bm) k) e else clone e)"
    if e: "map_of em k = Some e" "e \<noteq> Undefined" for k e
  proof (cases "map_of bm k")
    case None
    with e show ?thesis by (simp add: r lookup_Map)
  next
    case (Some b)
    show ?thesis
    proof (cases "(\<exists>x. b = Map x) \<and> (\<exists>y. e = Map y)")
      case True
      with e Some show ?thesis by (simp add: r lookup_Map)
    next
      case False
      with e Some Merge_defined [OF e(2) False] show ?thesis by (simp add: r lookup_Map)
    qed
  qed
  have 3: "map_of rm k = map_option clone (map_of bm k)" if "map_of em k = Some Undefined" for k
    using that by (cases "map_of bm k") (simp_all add: r)
  have 4: "Merge base Undefined = clone base" by simp
  from m 1 2 3 4 show ?thesis by blast
qed

theorem Merge_maps_witness:
  "distinct (map fst [(''b'', Int64 3)]) \<and>
   Merge (Map [(''a'', Int64 1), (''b'', Int64 2)]) (Map [(''b'', Int64 3)]) =
     Map [(''a'', Int64 1), (''b'', Int64 3)] \<and>
   distinct (map fst [(''a'', Undefined)]) \<and>
   Merge (Map [(''a'', Int64 1)]) (Map [(''a'', Undefined)]) = Map [(''a'', Int64 1)]"
  using Merge_maps [of "[(''b'', Int64 3)]" "[(''a'', Int64 1), (''b'', Int64 2)]" Null]
    Merge_maps [of "[(''a'', Undefined)]" "[(''a'', Int64 1)]" Null]
  by (simp add: keys_def clone_def)

text \<open>
  C8.  \<^verbatim>\<open>at\<close> with a key fails with \<^verbatim>\<open>index_out_of_bounds\<close> when the value is not a Map
  and when it is a Map without the key; it never fails with \<^verbatim>\<open>type_mismatch\<close>, it gives
  the value under a key that is there, and it leaves the value it is called on as it was.
\<close>

theorem at_out_of_bounds:
  "((\<forall>m. v \<noteq> Map m) \<longrightarrow> Value_at v k = (Inl index_out_of_bounds, v)) \<and>
   (\<forall>m. v = Map m \<and> k \<notin> keys m \<longrightarrow> Value_at v k = (Inl index_out_of_bounds, v)) \<and>
   (\<forall>m x. v = Map m \<and> map_of m k = Some x \<longrightarrow> Value_at v k = (Inr x, v)) \<and>
   fst (Value_at v k) \<noteq> Inl type_mismatch \<and>
   snd (Value_at v k) = v"
  by (cases v) (auto simp add: Value_at_def keys_map_of split: option.splits)

theorem at_out_of_bounds_witness:
  "Value_at (Vector [Null]) ''missing'' = (Inl index_out_of_bounds, Vector [Null]) \<and>
   ''missing'' \<notin> keys [(''a'', Null)] \<and>
   Value_at (Map [(''a'', Null)]) ''missing'' = (Inl index_out_of_bounds, Map [(''a'', Null)]) \<and>
   Value_at (Map [(''a'', Null)]) ''a'' = (Inr Null, Map [(''a'', Null)])"
  using at_out_of_bounds [of "Vector [Null]" "''missing''"]
    at_out_of_bounds [of "Map [(''a'', Null)]" "''missing''"]
    at_out_of_bounds [of "Map [(''a'', Null)]" "''a''"]
  by (simp add: keys_def)

end
